theory Spec2Isabelle
  imports Complex_Main "HOL-Library.Multiset"
begin

section \<open>The capability contracts\<close>

text \<open>
  \<open>Mapper.map\<close> and \<open>Reducer.reduce\<close> return an iterable, and the workers consume it with
  a \<open>for\<close> loop inside a \<open>try\<close>. The concrete classes of \<open>mapreduce_jobs.py\<close> are
  generators. What a worker observes of one invocation is therefore a finite sequence of
  yielded items, after which the iteration ends in one of four ways, told apart by the
  handlers of the worker's \<open>try\<close> statement:
  \<^item> \<open>Finishes\<close>: the iterable is exhausted;
  \<^item> \<open>Raises\<close>: it raises an exception that \<open>except Exception as e\<close> catches and whose
    message the handler can format for the log;
  \<^item> \<open>RaisesEmpty\<close>: it raises \<open>queue.Empty\<close> (or a subclass). The user's call stands in
    the same \<open>try\<close> as \<open>get(block=False)\<close>, so \<open>except queue.Empty: break\<close> catches it
    and the worker leaves its loop;
  \<^item> \<open>Escapes\<close>: it raises an exception that leaves the thread: one that is not an
    \<open>Exception\<close>, or one whose \<open>__str__\<close> raises when the handler formats the log message.
  An invocation that never returns is outside this model.
\<close>

datatype ending = Finishes | Raises | RaisesEmpty | Escapes

datatype 'o gen = Gen (yields: "'o list") (ending: ending)

text \<open>The endings after which the worker thread does not go on to the next task.\<close>

fun stops :: "ending \<Rightarrow> bool" where
  "stops Finishes = False"
| "stops Raises = False"
| "stops RaisesEmpty = True"
| "stops Escapes = True"

type_synonym ('k1, 'v1, 'k, 'v) mapper = "'k1 \<Rightarrow> 'v1 \<Rightarrow> ('k \<times> 'v) gen"
type_synonym ('k, 'v, 'r) reducer = "'k \<Rightarrow> 'v list \<Rightarrow> 'r gen"

section \<open>Worker threads\<close>

text \<open>
  \<open>_map_worker\<close> and \<open>_reduce_worker\<close> are the same loop over different queues:
  \<^verbatim>\<open>
    while not self.map_queue.empty():
        try:
            key, value = self.map_queue.get(block=False)
            for map_key, map_value in mapper.map(key, value):
                with self.shuffle_lock:
                    ...append to the shared collection...
            self.map_queue.task_done()
        except queue.Empty:
            break
        except Exception as e:
            logger.error(...)
  \<close>
  A thread is at one of four places: at the loop head, about to test \<open>empty()\<close>; past the
  test, about to call \<open>get(block=False)\<close>; inside the \<open>for\<close> loop, with the items the
  iterable has still to yield and how the iteration ends after them; or returned. The test
  and the \<open>get\<close> are two separate queue operations, so another thread may run between
  them. \<open>task_done()\<close> only counts finished tasks for \<open>Queue.join\<close>, which the framework
  never calls, and is not modelled.
\<close>

datatype 'o worker = LoopHead | Dequeue | Iterating "'o list" ending | Exited

record ('t, 'a, 'o) pool =
  workers :: "'o worker list"
  queue :: "'t list"
  acc :: 'a

text \<open>
  One atomic action of a worker thread. \<open>call\<close> is the invocation of the user's
  capability on a task, \<open>add\<close> is the update done under the lock.
\<close>

fun worker_step ::
  "('t \<Rightarrow> 'o gen) \<Rightarrow> ('a \<Rightarrow> 'o \<Rightarrow> 'a) \<Rightarrow> 'o worker \<Rightarrow> 't list \<Rightarrow> 'a \<Rightarrow> 'o worker \<times> 't list \<times> 'a"
where
  "worker_step call add LoopHead q a = (if q = [] then (Exited, q, a) else (Dequeue, q, a))"
| "worker_step call add Dequeue [] a = (Exited, [], a)"
| "worker_step call add Dequeue (t # q) a = (Iterating (yields (call t)) (ending (call t)), q, a)"
| "worker_step call add (Iterating (x # xs) r) q a = (Iterating xs r, q, add a x)"
| "worker_step call add (Iterating [] Finishes) q a = (LoopHead, q, a)"
| "worker_step call add (Iterating [] Raises) q a = (LoopHead, q, a)"
| "worker_step call add (Iterating [] RaisesEmpty) q a = (Exited, q, a)"
| "worker_step call add (Iterating [] Escapes) q a = (Exited, q, a)"
| "worker_step call add Exited q a = (Exited, q, a)"

definition pool_step ::
  "('t \<Rightarrow> 'o gen) \<Rightarrow> ('a \<Rightarrow> 'o \<Rightarrow> 'a) \<Rightarrow> nat \<Rightarrow> ('t, 'a, 'o) pool \<Rightarrow> ('t, 'a, 'o) pool"
where
  "pool_step call add i p =
     (case worker_step call add (workers p ! i) (queue p) (acc p) of
        (w, q, a) \<Rightarrow> \<lparr>workers = (workers p)[i := w], queue = q, acc = a\<rparr>)"

text \<open>
  The threads that have not returned, and the scheduler. A schedule is a list of
  numbers; each number selects, among the threads still running, the one that performs
  the next atomic action. When the list is used up the first running thread is taken.
\<close>

definition live :: "'o worker list \<Rightarrow> nat list" where
  "live ws = filter (\<lambda>i. ws ! i \<noteq> Exited) [0..<length ws]"

definition pick :: "nat list \<Rightarrow> 'o worker list \<Rightarrow> nat" where
  "pick sched ws =
     (case sched of [] \<Rightarrow> hd (live ws) | c # _ \<Rightarrow> live ws ! (c mod length (live ws)))"

text \<open>The measure of the work that is left, for the termination of the pool.\<close>

fun worker_weight :: "'o worker \<Rightarrow> nat" where
  "worker_weight Exited = 0"
| "worker_weight Dequeue = 1"
| "worker_weight LoopHead = 2"
| "worker_weight (Iterating xs r) = 3 + length xs"

definition pool_weight :: "('t \<Rightarrow> 'o gen) \<Rightarrow> ('t, 'a, 'o) pool \<Rightarrow> nat" where
  "pool_weight call p =
     sum_list (map worker_weight (workers p))
     + sum_list (map (\<lambda>t. 3 + length (yields (call t))) (queue p))"

lemma pick_live: "live ws \<noteq> [] \<Longrightarrow> pick sched ws \<in> set (live ws)"
  by (cases sched) (simp_all add: pick_def)

lemma live_iff: "i \<in> set (live ws) \<longleftrightarrow> i < length ws \<and> ws ! i \<noteq> Exited"
  by (auto simp: live_def)

lemma sum_list_map_update:
  "i < length xs \<Longrightarrow>
   sum_list (map f (xs[i := y])) + f (xs ! i) = sum_list (map f xs) + (f y :: nat)"
proof (induction xs arbitrary: i)
  case Nil
  then show ?case by simp
next
  case (Cons x xs)
  then show ?case by (cases i) auto
qed

lemma worker_step_weight:
  assumes "w \<noteq> Exited" and "worker_step call add w q a = (w', q', a')"
  shows "worker_weight w' + sum_list (map (\<lambda>t. 3 + length (yields (call t))) q')
         < worker_weight w + sum_list (map (\<lambda>t. 3 + length (yields (call t))) q)"
  using assms by (induction call add w q a rule: worker_step.induct) (auto split: if_splits)

lemma pool_step_weight:
  assumes "i \<in> set (live (workers p))"
  shows "pool_weight call (pool_step call add i p) < pool_weight call p"
proof -
  from assms have i: "i < length (workers p)" and ne: "workers p ! i \<noteq> Exited"
    by (simp_all add: live_iff)
  obtain w q a where st: "worker_step call add (workers p ! i) (queue p) (acc p) = (w, q, a)"
    by (cases "worker_step call add (workers p ! i) (queue p) (acc p)")
  from worker_step_weight [OF ne st] sum_list_map_update [OF i, of worker_weight w]
  show ?thesis by (simp add: pool_weight_def pool_step_def st)
qed

text \<open>
  A pool runs until every thread has returned; that is the barrier
  \<open>for t in threads: t.join()\<close> of \<open>run\<close>.
\<close>

function pool_run ::
  "('t \<Rightarrow> 'o gen) \<Rightarrow> ('a \<Rightarrow> 'o \<Rightarrow> 'a) \<Rightarrow> nat list \<Rightarrow> ('t, 'a, 'o) pool \<Rightarrow> ('t, 'a, 'o) pool"
where
  "pool_run call add sched p =
     (if live (workers p) = [] then p
      else pool_run call add (tl sched) (pool_step call add (pick sched (workers p)) p))"
  by pat_completeness auto
termination
  by (relation "measure (\<lambda>(call, add, sched, p). pool_weight call p)")
     (auto intro: pool_step_weight pick_live)

declare pool_run.simps [simp del]

lemma pool_run_done: "live (workers p) = [] \<Longrightarrow> pool_run call add sched p = p"
  by (subst pool_run.simps) simp

lemma pool_run_step:
  "live (workers p) \<noteq> [] \<Longrightarrow>
   pool_run call add sched p
   = pool_run call add (tl sched) (pool_step call add (pick sched (workers p)) p)"
  by (subst pool_run.simps) simp

text \<open>
  The interleavings of a pool, as a relation: from a state, any thread that has not
  returned may perform the next atomic action, until all have returned. The schedules
  describe exactly these executions: every \<open>pool_run\<close> is an interleaving, and every
  interleaving is the \<open>pool_run\<close> of some schedule (shown below), so a statement proved for
  all schedules holds for every way the threads can be scheduled.
\<close>

inductive interleaving ::
  "('t \<Rightarrow> 'o gen) \<Rightarrow> ('a \<Rightarrow> 'o \<Rightarrow> 'a) \<Rightarrow> ('t, 'a, 'o) pool \<Rightarrow> ('t, 'a, 'o) pool \<Rightarrow> bool"
  for call add
where
  joined: "live (workers p) = [] \<Longrightarrow> interleaving call add p p"
| step: "i \<in> set (live (workers p)) \<Longrightarrow> interleaving call add (pool_step call add i p) p'
         \<Longrightarrow> interleaving call add p p'"

section \<open>The engine\<close>

text \<open>
  \<open>MapReduceFramework\<close> keeps the two pool sizes, the two queues, the Shuffle Table and
  the Result Collector. The Shuffle Table is a Python \<open>dict\<close> from a key to the list of
  its values: a list of entries in insertion order whose keys are pairwise different.
  The two locks make each append one atomic action, which is what one step of a worker
  is.
\<close>

record ('k1, 'v1, 'k, 'v, 'r) engine =
  num_mappers :: int
  num_reducers :: int
  map_queue :: "('k1 \<times> 'v1) list"
  shuffle_dict :: "('k \<times> 'v list) list"
  reduce_queue :: "('k \<times> 'v list) list"
  results :: "'r list"

definition MapReduceFramework :: "int \<Rightarrow> int \<Rightarrow> ('k1, 'v1, 'k, 'v, 'r) engine" where
  "MapReduceFramework n_mappers n_reducers =
     \<lparr>num_mappers = n_mappers, num_reducers = n_reducers, map_queue = [],
      shuffle_dict = [], reduce_queue = [], results = []\<rparr>"

text \<open>
  The update under \<open>shuffle_lock\<close>:
  \<^verbatim>\<open>
    if map_key not in self.shuffle_dict:
        self.shuffle_dict[map_key] = []
    self.shuffle_dict[map_key].append(map_value)
  \<close>
\<close>

fun shuffle_add :: "('k \<times> 'v list) list \<Rightarrow> 'k \<times> 'v \<Rightarrow> ('k \<times> 'v list) list" where
  "shuffle_add [] (k, v) = [(k, [v])]"
| "shuffle_add ((k', vs) # d) (k, v) =
     (if k' = k then (k', vs @ [v]) # d else (k', vs) # shuffle_add d (k, v))"

text \<open>The update under \<open>results_lock\<close>: \<open>self.results.append(result)\<close>.\<close>

definition results_append :: "'r list \<Rightarrow> 'r \<Rightarrow> 'r list" where
  "results_append rs r = rs @ [r]"

text \<open>One atomic action of a thread running \<open>_map_worker\<close>, and of one running
  \<open>_reduce_worker\<close>.\<close>

definition map_worker ::
  "('k1, 'v1, 'k, 'v) mapper \<Rightarrow> ('k \<times> 'v) worker \<Rightarrow> ('k1 \<times> 'v1) list \<Rightarrow> ('k \<times> 'v list) list
   \<Rightarrow> ('k \<times> 'v) worker \<times> ('k1 \<times> 'v1) list \<times> ('k \<times> 'v list) list"
where
  "map_worker mapper = worker_step (\<lambda>(key, val). mapper key val) shuffle_add"

definition reduce_worker ::
  "('k, 'v, 'r) reducer \<Rightarrow> 'r worker \<Rightarrow> ('k \<times> 'v list) list \<Rightarrow> 'r list
   \<Rightarrow> 'r worker \<times> ('k \<times> 'v list) list \<times> 'r list"
where
  "reduce_worker reducer = worker_step (\<lambda>(key, vals). reducer key vals) results_append"

text \<open>
  The map phase of \<open>run\<close>: \<open>range(self.num_mappers)\<close> threads are started on
  \<open>_map_worker\<close> and joined. \<open>range\<close> of a number below one is empty.
\<close>

definition map_phase ::
  "nat list \<Rightarrow> ('k1, 'v1, 'k, 'v) mapper \<Rightarrow> ('k1, 'v1, 'k, 'v, 'r) engine
   \<Rightarrow> ('k1, 'v1, 'k, 'v, 'r) engine"
where
  "map_phase sched mapper e =
     (let p = pool_run (\<lambda>(key, val). mapper key val) shuffle_add sched
                \<lparr>workers = replicate (nat (num_mappers e)) LoopHead,
                 queue = map_queue e, acc = shuffle_dict e\<rparr>
      in e\<lparr>map_queue := queue p, shuffle_dict := acc p\<rparr>)"

text \<open>
  \<open>_shuffle\<close>: one \<open>put\<close> per item of the dictionary, in the dictionary's order.
  \<^verbatim>\<open>
    for key, values in self.shuffle_dict.items():
        self.reduce_queue.put((key, values))
  \<close>
\<close>

definition shuffle :: "('k1, 'v1, 'k, 'v, 'r) engine \<Rightarrow> ('k1, 'v1, 'k, 'v, 'r) engine" where
  "shuffle e = e\<lparr>reduce_queue := reduce_queue e @ shuffle_dict e\<rparr>"

definition reduce_phase ::
  "nat list \<Rightarrow> ('k, 'v, 'r) reducer \<Rightarrow> ('k1, 'v1, 'k, 'v, 'r) engine
   \<Rightarrow> ('k1, 'v1, 'k, 'v, 'r) engine"
where
  "reduce_phase sched reducer e =
     (let p = pool_run (\<lambda>(key, vals). reducer key vals) results_append sched
                \<lparr>workers = replicate (nat (num_reducers e)) LoopHead,
                 queue = reduce_queue e, acc = results e\<rparr>
      in e\<lparr>reduce_queue := queue p, results := acc p\<rparr>)"

text \<open>
  \<open>run\<close>: reset, load the map queue, map phase, shuffle, reduce phase, return
  \<open>self.results\<close>. The two schedules are the interleavings of the two pools. The
  function returns the result list together with the engine as the call leaves it.
\<close>

definition run ::
  "nat list \<Rightarrow> nat list \<Rightarrow> ('k1, 'v1, 'k, 'v, 'r) engine \<Rightarrow> ('k1 \<times> 'v1) list
   \<Rightarrow> ('k1, 'v1, 'k, 'v) mapper \<Rightarrow> ('k, 'v, 'r) reducer
   \<Rightarrow> 'r list \<times> ('k1, 'v1, 'k, 'v, 'r) engine"
where
  "run sm sr e input_data mapper reducer =
     (let e1 = e\<lparr>map_queue := [], shuffle_dict := [], reduce_queue := [], results := []\<rparr>;
          e2 = e1\<lparr>map_queue := map_queue e1 @ input_data\<rparr>;
          e3 = map_phase sm mapper e2;
          e4 = shuffle e3;
          e5 = reduce_phase sr reducer e4
      in (results e5, e5))"

section \<open>The counting job\<close>

text \<open>
  A passenger record is a \<open>dict\<close> from field names to values.
  \<open>record['passenger_id']\<close> raises \<open>KeyError\<close> when the field is missing; the generator
  then raises before it yields anything, and the worker's \<open>except Exception\<close> catches it.
\<close>

definition PassengerFlightCountMapper :: "'i \<Rightarrow> (string \<rightharpoonup> 'f) \<Rightarrow> ('f \<times> int) gen" where
  "PassengerFlightCountMapper _ record =
     (case record ''passenger_id'' of
        None \<Rightarrow> Gen [] Raises
      | Some passenger_id \<Rightarrow> Gen [(passenger_id, 1)] Finishes)"

definition PassengerFlightCountReducer :: "'k \<Rightarrow> int list \<Rightarrow> ('k \<times> int) gen" where
  "PassengerFlightCountReducer key vals = Gen [(key, sum_list vals)] Finishes"

text \<open>\<open>prepare_input_data\<close> of \<open>main.py\<close>: the records paired with their positions.\<close>

definition prepare_input_data :: "'a list \<Rightarrow> (int \<times> 'a) list" where
  "prepare_input_data passenger_records =
     zip (map int [0..<length passenger_records]) passenger_records"

section \<open>Airport records\<close>

text \<open>
  \<open>AirportDataParser\<close> validates each row of the airport file with three regular
  expressions, tested with \<open>pattern.match\<close>:
  \<^verbatim>\<open>
    AIRPORT_CODE_PATTERN = re.compile(r'^[A-Z]{3}$')
    AIRPORT_NAME_PATTERN = re.compile(r'^.{3,20}$')
    COORDINATE_PATTERN = re.compile(r'^-?\d+(\.\d{1,13})?$')
  \<close>
  In Python's \<open>re\<close>, \<open>$\<close> matches at the end of the string and also just before a
  newline that ends the string, and \<open>.\<close> matches every character but a newline.
  Strings are lists of 8-bit characters here, so digits and letters are the ASCII ones.
\<close>

definition newline :: char where
  "newline = CHR 0x0A"

definition is_upper :: "char \<Rightarrow> bool" where
  "is_upper c \<longleftrightarrow> c \<in> set ''ABCDEFGHIJKLMNOPQRSTUVWXYZ''"

definition is_digit :: "char \<Rightarrow> bool" where
  "is_digit c \<longleftrightarrow> c \<in> set ''0123456789''"

definition anchored :: "(string \<Rightarrow> bool) \<Rightarrow> string \<Rightarrow> bool" where
  "anchored body s \<longleftrightarrow> body s \<or> (s \<noteq> [] \<and> last s = newline \<and> body (butlast s))"

definition AIRPORT_CODE_PATTERN :: "string \<Rightarrow> bool" where
  "AIRPORT_CODE_PATTERN = anchored (\<lambda>s. length s = 3 \<and> list_all is_upper s)"

definition AIRPORT_NAME_PATTERN :: "string \<Rightarrow> bool" where
  "AIRPORT_NAME_PATTERN =
     anchored (\<lambda>s. 3 \<le> length s \<and> length s \<le> 20 \<and> list_all (\<lambda>c. c \<noteq> newline) s)"

text \<open>
  The body of the coordinate pattern: an optional minus sign, one or more digits, and
  optionally a point followed by one to thirteen digits. The digits before the point end
  at the first point of the string.
\<close>

definition unsigned_decimal :: "string \<Rightarrow> bool" where
  "unsigned_decimal s =
     (let whole = takeWhile (\<lambda>c. c \<noteq> CHR ''.'') s;
          rest = dropWhile (\<lambda>c. c \<noteq> CHR ''.'') s
      in whole \<noteq> [] \<and> list_all is_digit whole \<and>
         (rest = [] \<or>
          (1 \<le> length (tl rest) \<and> length (tl rest) \<le> 13 \<and> list_all is_digit (tl rest))))"

definition signed_decimal :: "string \<Rightarrow> bool" where
  "signed_decimal s =
     (case s of [] \<Rightarrow> False
      | c # t \<Rightarrow> if c = CHR ''-'' then unsigned_decimal t else unsigned_decimal s)"

definition COORDINATE_PATTERN :: "string \<Rightarrow> bool" where
  "COORDINATE_PATTERN = anchored signed_decimal"

text \<open>
  \<open>float(s)\<close> on a string. The parser calls it only after \<open>COORDINATE_PATTERN\<close> has
  matched the string, so it is modelled on those strings: a decimal numeral, possibly
  followed by a newline, which \<open>float\<close> strips as white space. \<open>None\<close> is \<open>ValueError\<close>.
  The value is the exact decimal, standing for the double Python rounds it to (infinity
  for a numeral beyond the range of the doubles). A numeral with at most thirteen
  fractional digits that differs from 90 or 180 differs from it by at least one part in
  ten to the thirteenth, more than the spacing of the doubles there, so the comparisons
  of the validator come out the same on the rounded value as on the exact one.
\<close>

definition digits_value :: "string \<Rightarrow> nat" where
  "digits_value s = foldl (\<lambda>n c. 10 * n + (of_char c - 48)) 0 s"

definition unsigned_value :: "string \<Rightarrow> rat" where
  "unsigned_value s =
     (let whole = takeWhile (\<lambda>c. c \<noteq> CHR ''.'') s;
          frac = tl (dropWhile (\<lambda>c. c \<noteq> CHR ''.'') s)
      in of_nat (digits_value whole) + of_nat (digits_value frac) / 10 ^ length frac)"

definition signed_value :: "string \<Rightarrow> rat" where
  "signed_value s =
     (case s of [] \<Rightarrow> 0
      | c # t \<Rightarrow> if c = CHR ''-'' then - unsigned_value t else unsigned_value s)"

definition float_str :: "string \<Rightarrow> rat option" where
  "float_str s =
     (let t = (if s \<noteq> [] \<and> last s = newline then butlast s else s)
      in if signed_decimal t then Some (signed_value t) else None)"

text \<open>
  \<open>_validate_airport_record\<close>, without its logging; \<open>line_num\<close> is used for the log
  messages only. The last test compares \<open>lat_float\<close> with the longitude's bounds, as the
  source does.
\<close>

definition validate_airport_record :: "string \<Rightarrow> string \<Rightarrow> string \<Rightarrow> string \<Rightarrow> bool" where
  "validate_airport_record name code latitude longitude =
     (if \<not> AIRPORT_NAME_PATTERN name then False
      else if \<not> AIRPORT_CODE_PATTERN code then False
      else if \<not> COORDINATE_PATTERN latitude then False
      else if \<not> COORDINATE_PATTERN longitude then False
      else case float_str latitude of
        None \<Rightarrow> False
      | Some lat_float \<Rightarrow>
          if lat_float < - 90 \<or> lat_float > 90 then False
          else case float_str longitude of
            None \<Rightarrow> False
          | Some lon_float \<Rightarrow>
              if lat_float < - 180 \<or> lat_float > 180 then False else True)"

record airport =
  airport_name :: string
  airport_code :: string
  airport_latitude :: rat
  airport_longitude :: rat

text \<open>
  \<open>AirportDataParser.parse\<close> on the rows that \<open>csv.reader\<close> delivers. Opening and
  reading the file is outside the model. A row with a number of fields other than four,
  a row that fails validation and a row whose coordinates \<open>float\<close> rejects are skipped;
  a later row with the same code replaces an earlier one.
\<close>

fun airport_rows :: "(string \<rightharpoonup> airport) \<Rightarrow> string list list \<Rightarrow> (string \<rightharpoonup> airport)" where
  "airport_rows airports [] = airports"
| "airport_rows airports (row # rows) =
     (case row of
        [name, code, latitude, longitude] \<Rightarrow>
          if \<not> validate_airport_record name code latitude longitude
          then airport_rows airports rows
          else (case (float_str latitude, float_str longitude) of
                  (Some lat_float, Some lon_float) \<Rightarrow>
                    airport_rows
                      (airports(code \<mapsto>
                         \<lparr>airport_name = name, airport_code = code,
                          airport_latitude = lat_float, airport_longitude = lon_float\<rparr>))
                      rows
                | _ \<Rightarrow> airport_rows airports rows)
      | _ \<Rightarrow> airport_rows airports rows)"

definition airport_parse :: "string list list \<Rightarrow> (string \<rightharpoonup> airport)" where
  "airport_parse rows = airport_rows Map.empty rows"

section \<open>Notions used in the statements and proofs\<close>

text \<open>
  The intermediate pairs a mapper yields over a whole input, the results a reducer yields
  over a list of reduce tasks, the pairs held by a Shuffle Table, and what makes a list
  of entries a dictionary with a non-empty value list for every key.
\<close>

definition emitted :: "('k1, 'v1, 'k, 'v) mapper \<Rightarrow> ('k1 \<times> 'v1) list \<Rightarrow> ('k \<times> 'v) list" where
  "emitted mapper input_data = concat (map (\<lambda>(key, val). yields (mapper key val)) input_data)"

definition reduced :: "('k, 'v, 'r) reducer \<Rightarrow> ('k \<times> 'v list) list \<Rightarrow> 'r list" where
  "reduced reducer d = concat (map (\<lambda>(key, vals). yields (reducer key vals)) d)"

definition flatten :: "('k \<times> 'v list) list \<Rightarrow> ('k \<times> 'v) list" where
  "flatten d = concat (map (\<lambda>(k, vs). map (Pair k) vs) d)"

definition table :: "('k \<times> 'v list) list \<Rightarrow> bool" where
  "table d \<longleftrightarrow> distinct (map fst d) \<and> [] \<notin> set (map snd d)"

text \<open>
  For the proofs about a pool: the items a thread has still to hand over, the items a
  pool has still to hand over (those of its threads and those of the tasks waiting in
  the queue), and the invariant of a pool in which no invocation stops its worker: a
  thread returns only when the queue is empty.
\<close>

fun pending :: "'o worker \<Rightarrow> 'o multiset" where
  "pending (Iterating xs r) = mset xs"
| "pending LoopHead = {#}"
| "pending Dequeue = {#}"
| "pending Exited = {#}"

definition pool_pending :: "('t \<Rightarrow> 'o gen) \<Rightarrow> ('t, 'a, 'o) pool \<Rightarrow> 'o multiset" where
  "pool_pending call p =
     sum_list (map pending (workers p)) + sum_list (map (\<lambda>t. mset (yields (call t))) (queue p))"

fun calm_worker :: "'o worker \<Rightarrow> bool" where
  "calm_worker (Iterating xs r) = (\<not> stops r)"
| "calm_worker LoopHead = True"
| "calm_worker Dequeue = True"
| "calm_worker Exited = True"

definition drained :: "('t \<Rightarrow> 'o gen) \<Rightarrow> ('t, 'a, 'o) pool \<Rightarrow> bool" where
  "drained call p \<longleftrightarrow>
     list_all calm_worker (workers p) \<and>
     list_all (\<lambda>t. \<not> stops (ending (call t))) (queue p) \<and>
     (Exited \<in> set (workers p) \<longrightarrow> queue p = [])"

text \<open>The reduce tasks that a step from engine \<open>e\<close> to engine \<open>e'\<close> has put on the reduce queue.\<close>

definition pushed ::
  "('k1, 'v1, 'k, 'v, 'r) engine \<Rightarrow> ('k1, 'v1, 'k, 'v, 'r) engine \<Rightarrow> ('k \<times> 'v list) list"
where
  "pushed e e' = drop (length (reduce_queue e)) (reduce_queue e')"

text \<open>
  The values a multiset of intermediate pairs holds for a key, and its grouping by key:
  what a Shuffle Table holding these pairs contains, whatever the order of its entries
  and of their value lists.
\<close>

definition values_of :: "'k \<Rightarrow> ('k \<times> 'v) multiset \<Rightarrow> 'v multiset" where
  "values_of k P = image_mset snd (filter_mset (\<lambda>p. fst p = k) P)"

definition groups :: "('k \<times> 'v) multiset \<Rightarrow> ('k \<times> 'v multiset) multiset" where
  "groups P = image_mset (\<lambda>k. (k, values_of k P)) (mset_set (fst ` set_mset P))"

section \<open>Properties of a worker pool\<close>

lemma pick_any:
  assumes "i \<in> set (live ws)"
  shows "\<exists>c. pick (c # sched) ws = i"
proof -
  from assms obtain c where "c < length (live ws)" "live ws ! c = i"
    by (auto simp: in_set_conv_nth)
  then have "pick (c # sched) ws = i"
    by (simp add: pick_def)
  then show ?thesis ..
qed

lemma interleaving_schedule:
  "interleaving call add p p' \<Longrightarrow> \<exists>sched. pool_run call add sched p = p'"
proof (induction rule: interleaving.induct)
  case (joined p)
  then show ?case by (simp add: pool_run_done)
next
  case (step i p p')
  then obtain sched where s: "pool_run call add sched (pool_step call add i p) = p'"
    by blast
  from pick_any [OF step.hyps(1)] obtain c where c: "pick (c # sched) (workers p) = i"
    by blast
  from step.hyps(1) have "live (workers p) \<noteq> []" by auto
  then have "pool_run call add (c # sched) p = p'"
    by (simp add: pool_run_step c s)
  then show ?case ..
qed

lemma schedule_interleaving: "interleaving call add p (pool_run call add sched p)"
proof (induction call add sched p rule: pool_run.induct)
  case (1 call add sched p)
  show ?case
  proof (cases "live (workers p) = []")
    case True
    then show ?thesis by (simp add: pool_run_done interleaving.joined)
  next
    case False
    with 1 have "interleaving call add (pool_step call add (pick sched (workers p)) p)
        (pool_run call add (tl sched) (pool_step call add (pick sched (workers p)) p))"
      by simp
    with pick_live [OF False, of sched] show ?thesis
      by (simp add: pool_run_step [OF False] interleaving.step)
  qed
qed

lemma sum_list_map_update_mset:
  "i < length xs \<Longrightarrow>
   sum_list (map f (xs[i := y])) + f (xs ! i) = sum_list (map f xs) + (f y :: 'b multiset)"
proof (induction xs arbitrary: i)
  case Nil
  then show ?case by simp
next
  case (Cons x xs)
  then show ?case by (cases i) (auto simp: ac_simps)
qed

lemma worker_step_pending:
  assumes "worker_step call add w q a = (w', q', a')"
  shows "\<exists>es. a' = foldl add a es \<and>
           pending w + sum_list (map (\<lambda>t. mset (yields (call t))) q)
           = mset es + pending w' + sum_list (map (\<lambda>t. mset (yields (call t))) q')"
  using assms
proof (induction call add w q a rule: worker_step.induct)
  case (4 call add x xs r q a)
  then have "a' = foldl add a [x]" and "w' = Iterating xs r" and "q' = q" by auto
  then show ?case by (intro exI [of _ "[x]"]) simp
qed (auto split: if_splits intro: exI [of _ "[]"])

lemma pool_step_pending:
  assumes "i < length (workers p)"
  shows "\<exists>es. acc (pool_step call add i p) = foldl add (acc p) es \<and>
           pool_pending call p = mset es + pool_pending call (pool_step call add i p)"
proof -
  obtain w q a where st: "worker_step call add (workers p ! i) (queue p) (acc p) = (w, q, a)"
    by (cases "worker_step call add (workers p ! i) (queue p) (acc p)")
  from worker_step_pending [OF st] obtain es where
    a: "a = foldl add (acc p) es" and
    e: "pending (workers p ! i) + sum_list (map (\<lambda>t. mset (yields (call t))) (queue p))
        = mset es + pending w + sum_list (map (\<lambda>t. mset (yields (call t))) q)"
    by blast
  have "pool_pending call p + pending w
        = sum_list (map pending ((workers p)[i := w])) + pending (workers p ! i)
          + sum_list (map (\<lambda>t. mset (yields (call t))) (queue p))"
    using sum_list_map_update_mset [OF assms, of pending w]
    by (simp add: pool_pending_def ac_simps)
  also have "\<dots> = mset es + pool_pending call (pool_step call add i p) + pending w"
    using e by (simp add: pool_pending_def pool_step_def st ac_simps)
  finally have "pool_pending call p = mset es + pool_pending call (pool_step call add i p)"
    by simp
  with a show ?thesis by (auto simp: pool_step_def st)
qed

lemma pool_run_pending:
  "\<exists>os. acc (pool_run call add sched p) = foldl add (acc p) os \<and>
        pool_pending call p = mset os + pool_pending call (pool_run call add sched p)"
proof (induction call add sched p rule: pool_run.induct)
  case (1 call add sched p)
  show ?case
  proof (cases "live (workers p) = []")
    case True
    then show ?thesis by (intro exI [of _ "[]"]) (simp add: pool_run_done)
  next
    case False
    let ?i = "pick sched (workers p)"
    let ?p = "pool_step call add ?i p"
    from False have "?i < length (workers p)"
      using pick_live [of "workers p" sched] by (simp add: live_iff)
    from pool_step_pending [OF this, of call add] obtain es where
      es: "acc ?p = foldl add (acc p) es" "pool_pending call p = mset es + pool_pending call ?p"
      by blast
    from "1.IH" [OF False] obtain os where
      os: "acc (pool_run call add (tl sched) ?p) = foldl add (acc ?p) os"
          "pool_pending call ?p = mset os + pool_pending call (pool_run call add (tl sched) ?p)"
      by blast
    have run: "pool_run call add sched p = pool_run call add (tl sched) ?p"
      using False by (rule pool_run_step)
    show ?thesis
      using es os by (intro exI [of _ "es @ os"]) (simp add: run)
  qed
qed

lemma length_pool_step [simp]: "length (workers (pool_step call add i p)) = length (workers p)"
  by (simp add: pool_step_def split: prod.splits)

lemma pool_run_live: "live (workers (pool_run call add sched p)) = []"
proof (induction call add sched p rule: pool_run.induct)
  case (1 call add sched p)
  then show ?case
    by (cases "live (workers p) = []") (simp_all add: pool_run_done pool_run_step)
qed

lemma pool_run_length: "length (workers (pool_run call add sched p)) = length (workers p)"
proof (induction call add sched p rule: pool_run.induct)
  case (1 call add sched p)
  then show ?case
    by (cases "live (workers p) = []") (simp_all add: pool_run_done pool_run_step)
qed

lemma live_Nil_iff: "live ws = [] \<longleftrightarrow> ws = replicate (length ws) Exited"
proof
  assume "live ws = []"
  then have "\<forall>i<length ws. ws ! i = Exited"
    by (auto simp: live_def filter_empty_conv)
  then show "ws = replicate (length ws) Exited"
    by (simp add: list_eq_iff_nth_eq)
next
  assume "ws = replicate (length ws) Exited"
  then have "\<forall>i<length ws. ws ! i = Exited"
    by (metis nth_replicate)
  then show "live ws = []"
    by (auto simp: live_def filter_empty_conv)
qed

lemma pool_run_workers:
  "workers (pool_run call add sched p) = replicate (length (workers p)) Exited"
  using pool_run_live [of call add sched p] pool_run_length [of call add sched p]
  by (simp add: live_Nil_iff)

lemma worker_step_queue:
  assumes "worker_step call add w q a = (w', q', a')"
  shows "q = [] \<longrightarrow> q' = []"
  using assms by (induction call add w q a rule: worker_step.induct) (auto split: if_splits)

lemma worker_step_drained:
  assumes "worker_step call add w q a = (w', q', a')"
    and "calm_worker w" and "list_all (\<lambda>t. \<not> stops (ending (call t))) q"
  shows "calm_worker w' \<and> list_all (\<lambda>t. \<not> stops (ending (call t))) q' \<and>
         (w' = Exited \<longrightarrow> q' = [] \<or> (w = Exited \<and> q' = q))"
  using assms by (induction call add w q a rule: worker_step.induct) (auto split: if_splits)

lemma pool_step_drained:
  assumes "drained call p" and "i < length (workers p)"
  shows "drained call (pool_step call add i p)"
proof -
  obtain w q a where st: "worker_step call add (workers p ! i) (queue p) (acc p) = (w, q, a)"
    by (cases "worker_step call add (workers p ! i) (queue p) (acc p)")
  from assms have cw: "calm_worker (workers p ! i)"
    and cq: "list_all (\<lambda>t. \<not> stops (ending (call t))) (queue p)"
    by (simp_all add: drained_def list_all_length)
  note d = worker_step_drained [OF st cw cq]
  have "list_all calm_worker ((workers p)[i := w])"
    using assms(1) d set_update_subset_insert [of "workers p" i w]
    by (auto simp: drained_def list_all_iff)
  moreover have "q = []" if ex: "Exited \<in> set ((workers p)[i := w])"
  proof (cases "Exited \<in> set (workers p)")
    case True
    with assms(1) have "queue p = []" by (simp add: drained_def)
    with worker_step_queue [OF st] show ?thesis by simp
  next
    case False
    with ex set_update_subset_insert [of "workers p" i w] have "w = Exited"
      by auto
    moreover from assms(2) False have "workers p ! i \<noteq> Exited"
      by (metis nth_mem)
    ultimately show ?thesis
      using d by blast
  qed
  ultimately show ?thesis
    using d by (simp add: drained_def pool_step_def st)
qed

lemma pool_run_drained: "drained call p \<Longrightarrow> drained call (pool_run call add sched p)"
proof (induction call add sched p rule: pool_run.induct)
  case (1 call add sched p)
  show ?case
  proof (cases "live (workers p) = []")
    case True
    with "1.prems" show ?thesis by (simp add: pool_run_done)
  next
    case False
    with pick_live [of "workers p" sched] have "pick sched (workers p) < length (workers p)"
      by (simp add: live_iff)
    with "1.prems" have "drained call (pool_step call add (pick sched (workers p)) p)"
      by (rule pool_step_drained)
    with "1.IH" [OF False] show ?thesis
      by (simp add: pool_run_step [OF False])
  qed
qed

lemma pool_run_queue:
  assumes "drained call p" and "workers p \<noteq> []"
  shows "queue (pool_run call add sched p) = []"
proof -
  from assms(2) have "Exited \<in> set (workers (pool_run call add sched p))"
    by (simp add: pool_run_workers)
  with pool_run_drained [OF assms(1), of add sched] show ?thesis
    by (simp add: drained_def)
qed

lemma sum_list_replicate_empty [simp]: "sum_list (replicate n ({#} :: 'b multiset)) = {#}"
  by (induction n) simp_all

lemma sum_list_pending_replicate [simp]: "sum_list (map pending (replicate n Exited)) = {#}"
  by (induction n) simp_all

lemma sum_list_pending_fresh [simp]: "sum_list (map pending (replicate n LoopHead)) = {#}"
  by (induction n) simp_all

lemma sum_list_mset_concat:
  "sum_list (map (\<lambda>t. mset (f t)) q) = mset (concat (map f q))"
  by (induction q) simp_all

lemma pool_no_workers:
  "pool_run call add sched \<lparr>workers = [], queue = q, acc = a\<rparr>
   = \<lparr>workers = [], queue = q, acc = a\<rparr>"
  by (simp add: pool_run_done live_def)

lemma flatten_simps [simp]:
  "flatten [] = []"
  "flatten ((k, vs) # d) = map (Pair k) vs @ flatten d"
  by (simp_all add: flatten_def)

lemma keys_shuffle_add: "fst ` set (shuffle_add d (k, v)) = insert k (fst ` set d)"
  by (induction d "(k, v)" rule: shuffle_add.induct) auto

lemma mset_flatten_shuffle_add:
  "mset (flatten (shuffle_add d kv)) = add_mset kv (mset (flatten d))"
  by (induction d kv rule: shuffle_add.induct) auto

lemma table_shuffle_add: "table d \<Longrightarrow> table (shuffle_add d kv)"
proof (induction d kv rule: shuffle_add.induct)
  case (1 k v)
  then show ?case by (simp add: table_def)
next
  case (2 k' vs d k v)
  then show ?case
    using keys_shuffle_add [of d k v] by (auto simp: table_def)
qed

lemma table_foldl: "table d \<Longrightarrow> table (foldl shuffle_add d os)"
  by (induction os arbitrary: d) (simp_all add: table_shuffle_add)

lemma mset_flatten_foldl:
  "mset (flatten (foldl shuffle_add d os)) = mset (flatten d) + mset os"
  by (induction os arbitrary: d) (simp_all add: mset_flatten_shuffle_add)

lemma foldl_results_append: "foldl results_append rs os = rs @ os"
  by (induction os arbitrary: rs) (simp_all add: results_append_def)

lemma table_Nil [simp]: "table []"
  by (simp add: table_def)

lemma pool_result_all:
  "\<exists>os. acc (pool_run call add sched \<lparr>workers = replicate n LoopHead, queue = q, acc = a\<rparr>)
          = foldl add a os \<and>
        mset os \<subseteq># mset (concat (map (\<lambda>t. yields (call t)) q)) \<and>
        (0 < n \<and> (\<forall>t \<in> set q. \<not> stops (ending (call t))) \<longrightarrow>
           mset os = mset (concat (map (\<lambda>t. yields (call t)) q)) \<and>
           queue (pool_run call add sched \<lparr>workers = replicate n LoopHead, queue = q, acc = a\<rparr>)
           = [])"
proof -
  let ?p = "\<lparr>workers = replicate n LoopHead, queue = q, acc = a\<rparr>"
  let ?r = "pool_run call add sched ?p"
  from pool_run_pending [of call add sched ?p] obtain os where
    os: "acc ?r = foldl add a os" "pool_pending call ?p = mset os + pool_pending call ?r"
    by auto
  from os(2) have "mset os \<subseteq># pool_pending call ?p"
    by simp
  then have sub: "mset os \<subseteq># mset (concat (map (\<lambda>t. yields (call t)) q))"
    by (simp add: pool_pending_def sum_list_mset_concat)
  have "mset os = mset (concat (map (\<lambda>t. yields (call t)) q)) \<and> queue ?r = []"
    if "0 < n" and calm: "\<forall>t \<in> set q. \<not> stops (ending (call t))"
  proof -
    have w: "workers ?r = replicate n Exited"
      by (simp add: pool_run_workers)
    have "drained call ?p"
      using calm by (simp add: drained_def list_all_iff)
    moreover from that have "workers ?p \<noteq> []" by simp
    ultimately have qe: "queue ?r = []" by (rule pool_run_queue)
    from os(2) have "mset os = mset (concat (map (\<lambda>t. yields (call t)) q))"
      by (simp add: pool_pending_def w qe sum_list_mset_concat)
    with qe show ?thesis by simp
  qed
  with os(1) sub show ?thesis by blast
qed

lemma map_phase_result:
  "\<exists>os. shuffle_dict (map_phase sm mapper e) = foldl shuffle_add (shuffle_dict e) os \<and>
        mset os \<subseteq># mset (emitted mapper (map_queue e)) \<and>
        (0 < num_mappers e \<and>
           (\<forall>(key, val) \<in> set (map_queue e). \<not> stops (ending (mapper key val))) \<longrightarrow>
           mset os = mset (emitted mapper (map_queue e)) \<and> map_queue (map_phase sm mapper e) = [])"
  using pool_result_all [of "\<lambda>(key, val). mapper key val" shuffle_add sm
      "nat (num_mappers e)" "map_queue e" "shuffle_dict e"]
  by (simp add: map_phase_def emitted_def Let_def case_prod_unfold)

lemma reduce_phase_result:
  "\<exists>os. results (reduce_phase sr reducer e) = results e @ os \<and>
        mset os \<subseteq># mset (reduced reducer (reduce_queue e)) \<and>
        (0 < num_reducers e \<and>
           (\<forall>(key, vals) \<in> set (reduce_queue e). \<not> stops (ending (reducer key vals))) \<longrightarrow>
           mset os = mset (reduced reducer (reduce_queue e)) \<and>
           reduce_queue (reduce_phase sr reducer e) = [])"
  using pool_result_all [of "\<lambda>(key, vals). reducer key vals" results_append sr
      "nat (num_reducers e)" "reduce_queue e" "results e"]
  by (simp add: reduce_phase_def reduced_def Let_def foldl_results_append case_prod_unfold)

lemma map_phase_fields [simp]:
  "num_mappers (map_phase sm mapper e) = num_mappers e"
  "num_reducers (map_phase sm mapper e) = num_reducers e"
  "reduce_queue (map_phase sm mapper e) = reduce_queue e"
  "results (map_phase sm mapper e) = results e"
  by (simp_all add: map_phase_def Let_def)

lemma reduce_phase_fields [simp]:
  "num_mappers (reduce_phase sr reducer e) = num_mappers e"
  "num_reducers (reduce_phase sr reducer e) = num_reducers e"
  "map_queue (reduce_phase sr reducer e) = map_queue e"
  "shuffle_dict (reduce_phase sr reducer e) = shuffle_dict e"
  by (simp_all add: reduce_phase_def Let_def)

lemma shuffle_fields [simp]:
  "num_mappers (shuffle e) = num_mappers e"
  "num_reducers (shuffle e) = num_reducers e"
  "map_queue (shuffle e) = map_queue e"
  "shuffle_dict (shuffle e) = shuffle_dict e"
  "results (shuffle e) = results e"
  "reduce_queue (shuffle e) = reduce_queue e @ shuffle_dict e"
  by (simp_all add: shuffle_def)

lemma run_result:
  "\<exists>d rs. table d \<and>
     mset (flatten d) \<subseteq># mset (emitted mapper input_data) \<and>
     (0 < num_mappers e \<and>
        (\<forall>(key, val) \<in> set input_data. \<not> stops (ending (mapper key val))) \<longrightarrow>
        mset (flatten d) = mset (emitted mapper input_data)) \<and>
     mset rs \<subseteq># mset (reduced reducer d) \<and>
     (0 < num_reducers e \<and>
        (\<forall>(key, vals) \<in> set d. \<not> stops (ending (reducer key vals))) \<longrightarrow>
        mset rs = mset (reduced reducer d)) \<and>
     fst (run sm sr e input_data mapper reducer) = rs \<and>
     shuffle_dict (snd (run sm sr e input_data mapper reducer)) = d"
proof -
  let ?e2 = "e\<lparr>map_queue := [], shuffle_dict := [], reduce_queue := [], results := [],
              map_queue := [] @ input_data\<rparr>"
  let ?e3 = "map_phase sm mapper ?e2"
  let ?e5 = "reduce_phase sr reducer (shuffle ?e3)"
  have r: "run sm sr e input_data mapper reducer = (results ?e5, ?e5)"
    by (simp add: run_def Let_def)
  from map_phase_result [of sm mapper ?e2] obtain os where
    os: "shuffle_dict ?e3 = foldl shuffle_add [] os"
        "mset os \<subseteq># mset (emitted mapper input_data)"
        "0 < num_mappers e \<and>
           (\<forall>(key, val) \<in> set input_data. \<not> stops (ending (mapper key val))) \<longrightarrow>
         mset os = mset (emitted mapper input_data)"
    by auto
  let ?d = "shuffle_dict ?e3"
  from reduce_phase_result [of sr reducer "shuffle ?e3"] obtain rs where
    rs: "results ?e5 = rs"
        "mset rs \<subseteq># mset (reduced reducer ?d)"
        "0 < num_reducers e \<and>
           (\<forall>(key, vals) \<in> set ?d. \<not> stops (ending (reducer key vals))) \<longrightarrow>
         mset rs = mset (reduced reducer ?d)"
    by auto
  have "table ?d"
    unfolding os(1) by (rule table_foldl) simp
  moreover have "mset (flatten ?d) = mset os"
    unfolding os(1) by (simp add: mset_flatten_foldl)
  ultimately show ?thesis
    using os(2,3) rs by (simp add: r)
qed

section \<open>The shuffle stage\<close>

lemma distinct_keys_filter:
  "distinct (map fst d) \<Longrightarrow> k \<in> fst ` set d \<Longrightarrow> length (filter (\<lambda>t. fst t = k) d) = 1"
proof (induction d)
  case Nil
  then show ?case by simp
next
  case (Cons x d)
  show ?case
  proof (cases "fst x = k")
    case True
    with Cons.prems have "filter (\<lambda>t. fst t = k) d = []"
      by (fastforce simp: filter_empty_conv image_iff)
    with True show ?thesis by simp
  next
    case False
    with Cons show ?thesis by auto
  qed
qed

text \<open>
  Claim C8 (shuffle partition). For every Shuffle Table, which as a dictionary has
  pairwise different keys, \<open>_shuffle\<close> leaves the tasks already on the reduce queue in
  place and puts behind them exactly one task for each key of the table; every task it
  puts there carries the value list the table holds for the task's key. The step does
  not change the table, and a second shuffle of the same table puts the same tasks on
  the queue again.
\<close>

theorem shuffle_partition:
  assumes "distinct (map fst (shuffle_dict e))"
  shows "take (length (reduce_queue e)) (reduce_queue (shuffle e)) = reduce_queue e
    \<and> (\<forall>k \<in> fst ` set (shuffle_dict e).
          length (filter (\<lambda>t. fst t = k) (pushed e (shuffle e))) = 1)
    \<and> (\<forall>t \<in> set (pushed e (shuffle e)). map_of (shuffle_dict e) (fst t) = Some (snd t))
    \<and> shuffle_dict (shuffle e) = shuffle_dict e
    \<and> pushed (shuffle e) (shuffle (shuffle e)) = pushed e (shuffle e)"
proof -
  have p: "pushed e (shuffle e) = shuffle_dict e"
    by (simp add: pushed_def)
  have "length (filter (\<lambda>t. fst t = k) (shuffle_dict e)) = 1"
    if "k \<in> fst ` set (shuffle_dict e)" for k
    using assms that by (rule distinct_keys_filter)
  moreover have "map_of (shuffle_dict e) (fst t) = Some (snd t)"
    if "t \<in> set (shuffle_dict e)" for t
    using assms that by (cases t) simp
  ultimately show ?thesis
    by (simp add: p) (simp add: pushed_def)
qed

theorem shuffle_partition_witness:
  "distinct (map fst [(''P1'', [1, 1, 1 :: int]), (''P2'', [1, 1])])
   \<and> pushed
        ((MapReduceFramework 4 2 :: (int, unit, string, int, string \<times> int) engine)
           \<lparr>shuffle_dict := [(''P1'', [1, 1, 1]), (''P2'', [1, 1])]\<rparr>)
        (shuffle ((MapReduceFramework 4 2)
           \<lparr>shuffle_dict := [(''P1'', [1, 1, 1]), (''P2'', [1, 1])]\<rparr>))
      = [(''P1'', [1, 1, 1]), (''P2'', [1, 1])]
   \<and> length (filter (\<lambda>t. fst t = ''P1'')
        (pushed
           ((MapReduceFramework 4 2 :: (int, unit, string, int, string \<times> int) engine)
              \<lparr>shuffle_dict := [(''P1'', [1, 1, 1]), (''P2'', [1, 1])]\<rparr>)
           (shuffle ((MapReduceFramework 4 2)
              \<lparr>shuffle_dict := [(''P1'', [1, 1, 1]), (''P2'', [1, 1])]\<rparr>)))) = 1"
  using shuffle_partition
    [of "(MapReduceFramework 4 2 :: (int, unit, string, int, string \<times> int) engine)
           \<lparr>shuffle_dict := [(''P1'', [1, 1, 1]), (''P2'', [1, 1])]\<rparr>"]
  by (simp add: MapReduceFramework_def pushed_def shuffle_def)

section \<open>Airport validation\<close>

lemma unsigned_decimal_chars:
  assumes "unsigned_decimal s"
  shows "s \<noteq> [] \<and> newline \<notin> set s"
proof -
  let ?P = "\<lambda>c. c \<noteq> CHR ''.''"
  let ?w = "takeWhile ?P s" and ?r = "dropWhile ?P s"
  from assms have w: "?w \<noteq> []" "list_all is_digit ?w"
    and r: "?r = [] \<or> list_all is_digit (tl ?r)"
    by (auto simp: unsigned_decimal_def Let_def)
  have d: "\<not> is_digit newline" "newline \<noteq> CHR ''.''"
    by (simp_all add: is_digit_def newline_def)
  from w d have nw: "newline \<notin> set ?w"
    by (auto simp: list_all_iff)
  have nr: "newline \<notin> set ?r"
  proof (cases ?r)
    case Nil
    then show ?thesis by (metis empty_iff empty_set)
  next
    case (Cons c t)
    with hd_dropWhile [of ?P s] have "c = CHR ''.''" by auto
    moreover from r Cons d have "newline \<notin> set t"
      by (auto simp: list_all_iff)
    ultimately show ?thesis using Cons d by auto
  qed
  have "s = ?w @ ?r" by simp
  then have "set s = set ?w \<union> set ?r"
    by (metis set_append)
  with nw nr w(1) show ?thesis by auto
qed

lemma signed_decimal_chars:
  assumes "signed_decimal s"
  shows "s \<noteq> [] \<and> last s \<noteq> newline"
proof (cases s)
  case Nil
  with assms show ?thesis by (simp add: signed_decimal_def)
next
  case (Cons c t)
  show ?thesis
  proof (cases "c = CHR ''-''")
    case True
    with assms Cons have "unsigned_decimal t" by (simp add: signed_decimal_def)
    from unsigned_decimal_chars [OF this] have "t \<noteq> []" "last t \<noteq> newline"
      by (metis last_in_set)+
    with Cons show ?thesis by simp
  next
    case False
    with assms Cons have "unsigned_decimal s" by (simp add: signed_decimal_def)
    from unsigned_decimal_chars [OF this] show ?thesis
      by (metis last_in_set)
  qed
qed

lemma float_str_pattern:
  assumes "COORDINATE_PATTERN s"
  shows "\<exists>x. float_str s = Some x"
proof -
  from assms have "signed_decimal s \<or> (s \<noteq> [] \<and> last s = newline \<and> signed_decimal (butlast s))"
    by (simp add: COORDINATE_PATTERN_def anchored_def)
  then show ?thesis
  proof
    assume "signed_decimal s"
    with signed_decimal_chars [OF this] show ?thesis
      by (simp add: float_str_def)
  next
    assume "s \<noteq> [] \<and> last s = newline \<and> signed_decimal (butlast s)"
    then show ?thesis by (simp add: float_str_def)
  qed
qed

text \<open>
  Claim C10 (the longitude is not range-checked). For every row whose name and code
  match their patterns, whose latitude and longitude match the coordinate pattern and
  whose latitude lies in \<open>[-90, 90]\<close>, \<open>_validate_airport_record\<close> returns \<open>True\<close>
  whatever the longitude's value, and \<open>parse\<close> stores the airport with that longitude. The
  instance below is a longitude of 500.
\<close>

theorem airport_longitude_unchecked:
  assumes "AIRPORT_NAME_PATTERN name" and "AIRPORT_CODE_PATTERN code"
    and "COORDINATE_PATTERN latitude" and "COORDINATE_PATTERN longitude"
    and "float_str latitude = Some lat" and "- 90 \<le> lat" and "lat \<le> 90"
  shows "validate_airport_record name code latitude longitude
    \<and> (\<exists>lon. float_str longitude = Some lon
          \<and> airport_parse [[name, code, latitude, longitude]] code
            = Some \<lparr>airport_name = name, airport_code = code,
                     airport_latitude = lat, airport_longitude = lon\<rparr>)"
proof -
  from float_str_pattern [OF assms(4)] obtain lon where lon: "float_str longitude = Some lon"
    by blast
  have v: "validate_airport_record name code latitude longitude"
    using assms lon by (simp add: validate_airport_record_def)
  then have "airport_parse [[name, code, latitude, longitude]] code
            = Some \<lparr>airport_name = name, airport_code = code,
                     airport_latitude = lat, airport_longitude = lon\<rparr>"
    using assms(5) lon by (simp add: airport_parse_def)
  with v lon show ?thesis by simp
qed

lemmas pat_defs = AIRPORT_NAME_PATTERN_def AIRPORT_CODE_PATTERN_def COORDINATE_PATTERN_def
  anchored_def signed_decimal_def unsigned_decimal_def is_upper_def is_digit_def newline_def
  float_str_def signed_value_def unsigned_value_def digits_value_def

theorem airport_longitude_unchecked_witness:
  "AIRPORT_NAME_PATTERN ''Heathrow'' \<and> AIRPORT_CODE_PATTERN ''LHR''
   \<and> COORDINATE_PATTERN ''51.4775'' \<and> COORDINATE_PATTERN ''500.0''
   \<and> float_str ''51.4775'' = Some (514775 / 10000)
   \<and> - 90 \<le> (514775 / 10000 :: rat) \<and> (514775 / 10000 :: rat) \<le> 90
   \<and> validate_airport_record ''Heathrow'' ''LHR'' ''51.4775'' ''500.0''
   \<and> airport_parse [[''Heathrow'', ''LHR'', ''51.4775'', ''500.0'']] ''LHR''
     = Some \<lparr>airport_name = ''Heathrow'', airport_code = ''LHR'',
              airport_latitude = 514775 / 10000, airport_longitude = 500\<rparr>
   \<and> (180 :: rat) < 500"
proof -
  have n: "AIRPORT_NAME_PATTERN ''Heathrow''" by (simp add: pat_defs)
  have c: "AIRPORT_CODE_PATTERN ''LHR''" by (simp add: pat_defs)
  have la: "COORDINATE_PATTERN ''51.4775''" by (simp add: pat_defs)
  have lo: "COORDINATE_PATTERN ''500.0''" by (simp add: pat_defs)
  have f: "float_str ''51.4775'' = Some (514775 / 10000)" by (simp add: pat_defs)
  have g: "float_str ''500.0'' = Some 500" by (simp add: pat_defs)
  have b: "- 90 \<le> (514775 / 10000 :: rat)" "(514775 / 10000 :: rat) \<le> 90" by simp_all
  from airport_longitude_unchecked [OF n c la lo f b] g n c la lo f b
  show ?thesis by simp
qed

section \<open>Count conservation\<close>

lemma sum_list_map_mset_cong:
  fixes f :: "'a \<Rightarrow> 'b :: comm_monoid_add"
  assumes "mset xs = mset ys"
  shows "sum_list (map f xs) = sum_list (map f ys)"
proof -
  have "sum_list (map f xs) = sum_mset (image_mset f (mset xs))" for xs :: "'a list"
    by (induction xs) (simp_all add: ac_simps)
  with assms show ?thesis by simp
qed

lemma sum_snd_flatten:
  "sum_list (map snd (flatten d)) = sum_list (map (\<lambda>(k, vs). sum_list vs) d)"
  for d :: "('k \<times> int list) list"
  by (induction d) (auto simp: comp_def)

lemma reduced_count:
  "reduced PassengerFlightCountReducer d = map (\<lambda>(k, vs). (k, sum_list vs)) d"
  by (induction d) (auto simp: reduced_def PassengerFlightCountReducer_def)

lemma count_mapper_calm [simp]: "\<not> stops (ending (PassengerFlightCountMapper key r))"
  by (simp add: PassengerFlightCountMapper_def split: option.splits)

lemma count_reducer_calm [simp]: "\<not> stops (ending (PassengerFlightCountReducer key vals))"
  by (simp add: PassengerFlightCountReducer_def)

lemma emitted_count:
  assumes "\<forall>(key, r) \<in> set input_data. r ''passenger_id'' \<noteq> None"
  shows "map snd (emitted PassengerFlightCountMapper input_data)
         = replicate (length input_data) 1"
  using assms
  by (induction input_data)
     (auto simp: emitted_def PassengerFlightCountMapper_def split: option.splits)

text \<open>
  Claim C1 (count conservation), as amended. On an engine with at least one mapper
  thread and at least one reducer thread, for every input list of records that all have
  a \<open>passenger_id\<close> (so that no invocation of the counting mapper fails; the counting
  reducer never fails) and for every interleaving of the threads, the counts returned
  by \<open>run\<close> for the counting job add up to the number of input records.
\<close>

theorem count_conservation:
  assumes "0 < num_mappers e" and "0 < num_reducers e"
    and "\<forall>(key, r) \<in> set input_data. r ''passenger_id'' \<noteq> None"
  shows "sum_list (map snd (fst (run sm sr e input_data
           PassengerFlightCountMapper PassengerFlightCountReducer)))
         = int (length input_data)"
proof -
  from run_result [of PassengerFlightCountMapper input_data e PassengerFlightCountReducer sm sr]
    assms(1,2)
  obtain d rs where
    d: "mset (flatten d) = mset (emitted PassengerFlightCountMapper input_data)" and
    rs: "mset rs = mset (reduced PassengerFlightCountReducer d)" and
    r: "fst (run sm sr e input_data PassengerFlightCountMapper PassengerFlightCountReducer) = rs"
    by auto
  have "sum_list (map snd rs) = sum_list (map snd (reduced PassengerFlightCountReducer d))"
    using rs by (rule sum_list_map_mset_cong)
  also have "\<dots> = sum_list (map snd (flatten d))"
    by (simp add: reduced_count sum_snd_flatten comp_def case_prod_unfold)
  also have "\<dots> = sum_list (map snd (emitted PassengerFlightCountMapper input_data))"
    using d by (rule sum_list_map_mset_cong)
  also have "\<dots> = int (length input_data)"
    by (simp add: emitted_count [OF assms(3)] sum_list_replicate)
  finally show ?thesis by (simp add: r)
qed

theorem count_conservation_witness:
  "0 < num_mappers (MapReduceFramework 2 2 :: (int, string \<rightharpoonup> string, string, int, string \<times> int) engine)
   \<and> 0 < num_reducers (MapReduceFramework 2 2 :: (int, string \<rightharpoonup> string, string, int, string \<times> int) engine)
   \<and> list_all (\<lambda>(key, r). r ''passenger_id'' \<noteq> None)
        (prepare_input_data
           [[''passenger_id'' \<mapsto> ''P1''], [''passenger_id'' \<mapsto> ''P2''],
            [''passenger_id'' \<mapsto> ''P1'']])
   \<and> sum_list (map snd (fst (run [1, 0, 1, 1, 0, 2] [0, 1]
        (MapReduceFramework 2 2 :: (int, string \<rightharpoonup> string, string, int, string \<times> int) engine)
        (prepare_input_data
           [[''passenger_id'' \<mapsto> ''P1''], [''passenger_id'' \<mapsto> ''P2''],
            [''passenger_id'' \<mapsto> ''P1'']])
        PassengerFlightCountMapper PassengerFlightCountReducer))) = 3"
proof -
  let ?e = "MapReduceFramework 2 2 :: (int, string \<rightharpoonup> string, string, int, string \<times> int) engine"
  let ?i = "prepare_input_data
           [[''passenger_id'' \<mapsto> ''P1''], [''passenger_id'' \<mapsto> ''P2''],
            [''passenger_id'' \<mapsto> ''P1'']]"
  have m: "0 < num_mappers ?e" and r: "0 < num_reducers ?e"
    by (simp_all add: MapReduceFramework_def)
  have i: "\<forall>(key, r) \<in> set ?i. r ''passenger_id'' \<noteq> None"
    by (simp add: prepare_input_data_def upt_rec)
  have l: "int (length ?i) = 3"
    by (simp add: prepare_input_data_def)
  from count_conservation [OF m r i, of "[1, 0, 1, 1, 0, 2]" "[0, 1]"] m r i l
  show ?thesis by (simp add: list_all_iff)
qed

theorem count_conservation_counterexample:
  "list_all (\<lambda>(key, r). r ''passenger_id'' \<noteq> None) [(0 :: int, [''passenger_id'' \<mapsto> ''P1''])]
   \<and> sum_list (map snd (fst (run [] []
        (MapReduceFramework 0 2 :: (int, string \<rightharpoonup> string, string, int, string \<times> int) engine)
        [(0, [''passenger_id'' \<mapsto> ''P1''])]
        PassengerFlightCountMapper PassengerFlightCountReducer)))
     \<noteq> int (length [(0 :: int, [''passenger_id'' \<mapsto> ''P1''])])"
  by code_simp

section \<open>No key loss\<close>

lemma keys_flatten: "table d \<Longrightarrow> fst ` set (flatten d) = fst ` set d"
proof (induction d)
  case Nil
  then show ?case by simp
next
  case (Cons x d)
  obtain k vs where x: "x = (k, vs)" by (cases x)
  from Cons.prems have "table d" and "vs \<noteq> []"
    by (auto simp: table_def x)
  then have "fst ` set (flatten d) = fst ` set d" and "(\<lambda>v. k) ` set vs = {k}"
    using Cons.IH by (simp, cases vs) auto
  then show ?case
    by (simp add: x image_Un image_image)
qed

lemma keys_reduced:
  assumes "\<forall>(k, vs) \<in> set d. yields (reducer k vs) \<noteq> [] \<and> (\<forall>r \<in> set (yields (reducer k vs)). fst r = k)"
  shows "fst ` set (reduced reducer d) = fst ` set d"
  using assms
proof (induction d)
  case Nil
  then show ?case by (simp add: reduced_def)
next
  case (Cons x d)
  obtain k vs where x: "x = (k, vs)" by (cases x)
  from Cons.prems have ne: "yields (reducer k vs) \<noteq> []"
    and ks: "\<forall>r \<in> set (yields (reducer k vs)). fst r = k"
    by (auto simp: x)
  from ne ks have "fst ` set (yields (reducer k vs)) = {k}"
    by (cases "yields (reducer k vs)") auto
  moreover from Cons have "fst ` set (reduced reducer d) = fst ` set d"
    by simp
  ultimately show ?case
    by (simp add: x reduced_def image_Un)
qed

text \<open>
  Claim C3 (no key loss), as amended. On an engine with at least one mapper thread and
  at least one reducer thread, for every input and mapper none of whose invocations on
  the input stops its worker, every interleaving of the threads, and every reducer that,
  for each key it is given with a non-empty value list, does not stop its worker, yields
  at least one result pair and yields only result pairs that carry that key, the keys of
  the result collection returned by \<open>run\<close> are exactly the keys the mapper yielded
  across the input. In particular this holds when no invocation fails.
\<close>

theorem no_key_loss:
  assumes "0 < num_mappers e" and "0 < num_reducers e"
    and "\<forall>(key, val) \<in> set input_data. \<not> stops (ending (mapper key val))"
    and "\<forall>k vs. vs \<noteq> [] \<longrightarrow>
           \<not> stops (ending (reducer k vs)) \<and>
           yields (reducer k vs) \<noteq> [] \<and> (\<forall>r \<in> set (yields (reducer k vs)). fst r = k)"
  shows "fst ` set (fst (run sm sr e input_data mapper reducer))
         = fst ` set (emitted mapper input_data)"
proof -
  from run_result [of mapper input_data e reducer sm sr]
  obtain d rs where t: "table d" and
    d': "0 < num_mappers e \<and>
          (\<forall>(key, val) \<in> set input_data. \<not> stops (ending (mapper key val))) \<longrightarrow>
         mset (flatten d) = mset (emitted mapper input_data)" and
    rs': "0 < num_reducers e \<and>
          (\<forall>(key, vals) \<in> set d. \<not> stops (ending (reducer key vals))) \<longrightarrow>
          mset rs = mset (reduced reducer d)" and
    r: "fst (run sm sr e input_data mapper reducer) = rs"
    by blast
  from d' assms(1,3) have d: "mset (flatten d) = mset (emitted mapper input_data)"
    by blast
  from t have ne: "\<forall>(k, vs) \<in> set d. vs \<noteq> []"
    by (force simp: table_def)
  with assms(4) have "\<forall>(key, vals) \<in> set d. \<not> stops (ending (reducer key vals))"
    by fast
  with rs' assms(2) have rs: "mset rs = mset (reduced reducer d)"
    by blast
  from ne assms(4) have
    "\<forall>(k, vs) \<in> set d. yields (reducer k vs) \<noteq> [] \<and> (\<forall>r \<in> set (yields (reducer k vs)). fst r = k)"
    by fast
  then have "fst ` set (reduced reducer d) = fst ` set d"
    by (rule keys_reduced)
  moreover from rs have "set rs = set (reduced reducer d)"
    by (rule mset_eq_setD)
  moreover from d have "set (flatten d) = set (emitted mapper input_data)"
    by (rule mset_eq_setD)
  ultimately show ?thesis
    using keys_flatten [OF t] by (simp add: r)
qed

theorem no_key_loss_witness:
  "0 < num_mappers (MapReduceFramework 2 2 :: (int, string \<rightharpoonup> string, string, int, string \<times> int) engine)
   \<and> 0 < num_reducers (MapReduceFramework 2 2 :: (int, string \<rightharpoonup> string, string, int, string \<times> int) engine)
   \<and> fst ` set (fst (run [1, 0, 1, 1, 0, 2] [0, 1]
        (MapReduceFramework 2 2 :: (int, string \<rightharpoonup> string, string, int, string \<times> int) engine)
        (prepare_input_data
           [[''passenger_id'' \<mapsto> ''P1''], [''passenger_id'' \<mapsto> ''P2''],
            [''passenger_id'' \<mapsto> ''P1'']])
        PassengerFlightCountMapper PassengerFlightCountReducer)) = {''P1'', ''P2''}"
proof -
  let ?e = "MapReduceFramework 2 2 :: (int, string \<rightharpoonup> string, string, int, string \<times> int) engine"
  let ?i = "prepare_input_data
           [[''passenger_id'' \<mapsto> ''P1''], [''passenger_id'' \<mapsto> ''P2''],
            [''passenger_id'' \<mapsto> ''P1'']]"
  have m: "0 < num_mappers ?e" and r: "0 < num_reducers ?e"
    by (simp_all add: MapReduceFramework_def)
  have c: "\<forall>(key, val) \<in> set ?i.
      \<not> stops (ending (PassengerFlightCountMapper key val :: (string \<times> int) gen))"
    by simp
  have h: "\<forall>k vs. vs \<noteq> [] \<longrightarrow>
      \<not> stops (ending (PassengerFlightCountReducer k vs :: (string \<times> int) gen)) \<and>
      yields (PassengerFlightCountReducer k vs :: (string \<times> int) gen) \<noteq> [] \<and>
      (\<forall>r \<in> set (yields (PassengerFlightCountReducer k vs :: (string \<times> int) gen)). fst r = k)"
    by (simp add: PassengerFlightCountReducer_def)
  have i: "fst ` set (emitted PassengerFlightCountMapper ?i :: (string \<times> int) list) = {''P1'', ''P2''}"
    by (simp add: prepare_input_data_def upt_rec emitted_def PassengerFlightCountMapper_def
        insert_commute)
  from no_key_loss [OF m r c h, of "[1, 0, 1, 1, 0, 2]" "[0, 1]"] i m r
  show ?thesis by simp
qed

theorem no_key_loss_counterexample:
  "emitted PassengerFlightCountMapper [(0 :: int, [''passenger_id'' \<mapsto> ''P1''])] = [(''P1'', 1)]
   \<and> PassengerFlightCountMapper (0 :: int) [''passenger_id'' \<mapsto> ''P1'']
     = Gen [(''P1'', 1)] Finishes
   \<and> fst (run [] [] (MapReduceFramework 4 0 :: (int, string \<rightharpoonup> string, string, int, string \<times> int) engine) [(0, [''passenger_id'' \<mapsto> ''P1''])]
        PassengerFlightCountMapper PassengerFlightCountReducer) = []
   \<and> fst ` set (fst (run [] [] (MapReduceFramework 4 0 :: (int, string \<rightharpoonup> string, string, int, string \<times> int) engine) [(0, [''passenger_id'' \<mapsto> ''P1''])]
        PassengerFlightCountMapper PassengerFlightCountReducer))
     \<noteq> fst ` set (emitted PassengerFlightCountMapper [(0 :: int, [''passenger_id'' \<mapsto> ''P1''])] :: (string \<times> int) list)
   \<and> (\<lambda>key vals. Gen [(key, sum_list vals), (''EXTRA'', 0)] Finishes) ''P1'' [1] = Gen [(''P1'', 1), (''EXTRA'', 0)] Finishes
   \<and> fst (run [] [] (MapReduceFramework 1 1 :: (int, string \<rightharpoonup> string, string, int, string \<times> int) engine) [(0, [''passenger_id'' \<mapsto> ''P1''])] PassengerFlightCountMapper (\<lambda>key vals. Gen [(key, sum_list vals), (''EXTRA'', 0)] Finishes)) = [(''P1'', 1), (''EXTRA'', 0)]
   \<and> fst ` set (fst (run [] [] (MapReduceFramework 1 1 :: (int, string \<rightharpoonup> string, string, int, string \<times> int) engine) [(0, [''passenger_id'' \<mapsto> ''P1''])] PassengerFlightCountMapper (\<lambda>key vals. Gen [(key, sum_list vals), (''EXTRA'', 0)] Finishes)))
     \<noteq> fst ` set (emitted PassengerFlightCountMapper [(0 :: int, [''passenger_id'' \<mapsto> ''P1''])] :: (string \<times> int) list)"
proof -
  have a: "fst (run [] [] (MapReduceFramework 4 0 :: (int, string \<rightharpoonup> string, string, int, string \<times> int) engine) [(0, [''passenger_id'' \<mapsto> ''P1''])]
        PassengerFlightCountMapper PassengerFlightCountReducer) = []"
    by code_simp
  have b: "emitted PassengerFlightCountMapper [(0 :: int, [''passenger_id'' \<mapsto> ''P1''])] = [(''P1'', 1)]"
    by (simp add: emitted_def PassengerFlightCountMapper_def)
  have c: "fst (run [] [] (MapReduceFramework 1 1 :: (int, string \<rightharpoonup> string, string, int, string \<times> int) engine) [(0, [''passenger_id'' \<mapsto> ''P1''])] PassengerFlightCountMapper (\<lambda>key vals. Gen [(key, sum_list vals), (''EXTRA'', 0)] Finishes))
     = [(''P1'', 1), (''EXTRA'', 0)]"
    by code_simp
  have d: "PassengerFlightCountMapper (0 :: int) [''passenger_id'' \<mapsto> ''P1'']
     = Gen [(''P1'', 1)] Finishes"
    by (simp add: PassengerFlightCountMapper_def)
  show ?thesis
    unfolding a b c d by simp
qed

section \<open>Determinism for commutative reducers\<close>

lemma values_of_union: "values_of k (P + Q) = values_of k P + values_of k Q"
  by (simp add: values_of_def)

lemma values_of_Pair:
  "values_of k (image_mset (Pair k') M) = (if k' = k then M else {#})"
  by (induction M) (auto simp: values_of_def)

lemma values_of_absent:
  "k \<notin> fst ` set d \<Longrightarrow> values_of k (mset (flatten d)) = {#}"
proof (induction d)
  case Nil
  then show ?case by (simp add: values_of_def)
next
  case (Cons x d)
  then show ?case
    by (cases x) (auto simp: values_of_union values_of_Pair)
qed

lemma values_of_entry:
  assumes "distinct (map fst d)" and "(k, vs) \<in> set d"
  shows "values_of k (mset (flatten d)) = mset vs"
  using assms
proof (induction d)
  case Nil
  then show ?case by simp
next
  case (Cons x d)
  obtain k' vs' where x: "x = (k', vs')" by (cases x)
  show ?case
  proof (cases "(k, vs) = x")
    case True
    with Cons.prems x have "k \<notin> fst ` set d" by auto
    then have "values_of k (mset (flatten d)) = {#}" by (rule values_of_absent)
    with True x show ?thesis
      by (simp add: values_of_union values_of_Pair)
  next
    case False
    with Cons.prems have in_d: "(k, vs) \<in> set d" by simp
    with Cons.prems x have "k' \<noteq> k" by force
    moreover from Cons.IH Cons.prems in_d have "values_of k (mset (flatten d)) = mset vs"
      by simp
    ultimately show ?thesis
      by (simp add: x values_of_union values_of_Pair)
  qed
qed

lemma table_groups:
  assumes "table d"
  shows "mset (map (\<lambda>(k, vs). (k, mset vs)) d) = groups (mset (flatten d))"
proof -
  let ?P = "mset (flatten d)"
  from assms have dist: "distinct (map fst d)"
    by (simp add: table_def)
  have "mset (map (\<lambda>(k, vs). (k, mset vs)) d) = image_mset (\<lambda>(k, vs). (k, mset vs)) (mset d)"
    by simp
  also have "\<dots> = image_mset (\<lambda>x. (fst x, values_of (fst x) ?P)) (mset d)"
    by (rule image_mset_cong) (auto simp: values_of_entry [OF dist])
  also have "\<dots> = image_mset (\<lambda>k. (k, values_of k ?P)) (image_mset fst (mset d))"
    by (simp add: multiset.map_comp comp_def)
  also have "image_mset fst (mset d) = mset_set (fst ` set d)"
    using mset_set_set [OF dist] by simp
  also have "fst ` set d = fst ` set_mset ?P"
    using keys_flatten [OF assms] by simp
  finally show ?thesis by (simp add: groups_def)
qed

lemma reduced_groups:
  assumes "\<forall>k vs vs'. mset vs = mset vs' \<longrightarrow> reducer k vs = reducer k vs'"
  shows "\<exists>G. \<forall>d. table d \<longrightarrow>
           mset (reduced reducer d) = sum_mset (image_mset G (groups (mset (flatten d))))"
proof -
  define G where "G = (\<lambda>(k, M). mset (yields (reducer k (SOME vs. mset vs = M))))"
  have g: "mset (yields (reducer k vs)) = G (k, mset vs)" for k vs
  proof -
    have "mset (SOME vs'. mset vs' = mset vs) = mset vs"
      by (rule someI [of "\<lambda>vs'. mset vs' = mset vs" vs]) simp
    with assms(1) have "reducer k (SOME vs'. mset vs' = mset vs) = reducer k vs"
      by blast
    then show ?thesis by (simp add: G_def)
  qed
  have r: "mset (reduced reducer d)
           = sum_mset (image_mset G (mset (map (\<lambda>(k, vs). (k, mset vs)) d)))" for d
    by (induction d) (auto simp: reduced_def g)
  have "\<forall>d. table d \<longrightarrow>
           mset (reduced reducer d) = sum_mset (image_mset G (groups (mset (flatten d))))"
    using r table_groups by metis
  then show ?thesis by blast
qed

text \<open>
  Claim C9 (commutative-reducer determinism), as amended. For every input, every mapper
  none of whose invocations on the input stops its worker, and every reducer none of
  whose invocations stops its worker and whose outcome depends on the multiset of the
  values only, not on their order, any two runs on engines with at least one mapper
  thread and at least one reducer thread each, under any two interleavings, return the
  same results up to the order of the result list. An invocation stops its worker when
  it raises \<open>queue.Empty\<close>, which the worker takes for an empty queue, or an error
  that escapes the worker's handler; an invocation that raises any other error does not.
\<close>

theorem commutative_reducer_determinism:
  assumes "0 < num_mappers e" and "0 < num_reducers e"
    and "0 < num_mappers e'" and "0 < num_reducers e'"
    and "\<forall>(key, val) \<in> set input_data. \<not> stops (ending (mapper key val))"
    and "\<forall>k vs. \<not> stops (ending (reducer k vs))"
    and "\<forall>k vs vs'. mset vs = mset vs' \<longrightarrow> reducer k vs = reducer k vs'"
  shows "mset (fst (run sm sr e input_data mapper reducer))
         = mset (fst (run sm' sr' e' input_data mapper reducer))"
proof -
  from assms(6) have calm: "\<forall>(key, vals) \<in> set d. \<not> stops (ending (reducer key vals))" for d
    by simp
  from run_result [of mapper input_data e reducer sm sr]
  obtain d rs where t: "table d" and
    d0: "0 < num_mappers e \<and>
          (\<forall>(key, val) \<in> set input_data. \<not> stops (ending (mapper key val))) \<longrightarrow>
         mset (flatten d) = mset (emitted mapper input_data)" and
    rs0: "0 < num_reducers e \<and>
          (\<forall>(key, vals) \<in> set d. \<not> stops (ending (reducer key vals))) \<longrightarrow>
          mset rs = mset (reduced reducer d)" and
    r: "fst (run sm sr e input_data mapper reducer) = rs"
    by blast
  from d0 assms(1,5) have d: "mset (flatten d) = mset (emitted mapper input_data)"
    by blast
  from rs0 assms(2) calm [of d] have rs: "mset rs = mset (reduced reducer d)"
    by blast
  from run_result [of mapper input_data e' reducer sm' sr']
  obtain d' rs' where t': "table d'" and
    d0': "0 < num_mappers e' \<and>
          (\<forall>(key, val) \<in> set input_data. \<not> stops (ending (mapper key val))) \<longrightarrow>
         mset (flatten d') = mset (emitted mapper input_data)" and
    rs0': "0 < num_reducers e' \<and>
          (\<forall>(key, vals) \<in> set d'. \<not> stops (ending (reducer key vals))) \<longrightarrow>
          mset rs' = mset (reduced reducer d')" and
    r': "fst (run sm' sr' e' input_data mapper reducer) = rs'"
    by blast
  from d0' assms(3,5) have d': "mset (flatten d') = mset (emitted mapper input_data)"
    by blast
  from rs0' assms(4) calm [of d'] have rs': "mset rs' = mset (reduced reducer d')"
    by blast
  from reduced_groups [OF assms(7)] obtain G where
    G: "\<And>d. table d \<Longrightarrow>
          mset (reduced reducer d) = sum_mset (image_mset G (groups (mset (flatten d))))"
    by blast
  from G [OF t] G [OF t'] d d' have "mset (reduced reducer d) = mset (reduced reducer d')"
    by simp
  with rs rs' show ?thesis by (simp add: r r')
qed

lemma count_reducer_commutative:
  "\<forall>k vs vs'. mset vs = mset vs' \<longrightarrow>
     PassengerFlightCountReducer k vs = PassengerFlightCountReducer k vs'"
  by (metis PassengerFlightCountReducer_def sum_mset_sum_list)

theorem commutative_reducer_determinism_witness:
  "fst (run [] [] (MapReduceFramework 1 1 :: (int, string \<rightharpoonup> string, string, int, string \<times> int) engine)
        (prepare_input_data
           [[''passenger_id'' \<mapsto> ''P1''], [''passenger_id'' \<mapsto> ''P2''],
            [''passenger_id'' \<mapsto> ''P1'']])
        PassengerFlightCountMapper PassengerFlightCountReducer) = [(''P1'', 2), (''P2'', 1)]
   \<and> fst (run [0, 0, 1, 1, 1] [] (MapReduceFramework 8 4 :: (int, string \<rightharpoonup> string, string, int, string \<times> int) engine)
        (prepare_input_data
           [[''passenger_id'' \<mapsto> ''P1''], [''passenger_id'' \<mapsto> ''P2''],
            [''passenger_id'' \<mapsto> ''P1'']])
        PassengerFlightCountMapper PassengerFlightCountReducer) = [(''P2'', 1), (''P1'', 2)]
   \<and> mset (fst (run [] [] (MapReduceFramework 1 1 :: (int, string \<rightharpoonup> string, string, int, string \<times> int) engine)
        (prepare_input_data
           [[''passenger_id'' \<mapsto> ''P1''], [''passenger_id'' \<mapsto> ''P2''],
            [''passenger_id'' \<mapsto> ''P1'']])
        PassengerFlightCountMapper PassengerFlightCountReducer))
     = mset (fst (run [0, 0, 1, 1, 1] [] (MapReduceFramework 8 4 :: (int, string \<rightharpoonup> string, string, int, string \<times> int) engine)
        (prepare_input_data
           [[''passenger_id'' \<mapsto> ''P1''], [''passenger_id'' \<mapsto> ''P2''],
            [''passenger_id'' \<mapsto> ''P1'']])
        PassengerFlightCountMapper PassengerFlightCountReducer))"
proof -
  let ?e = "MapReduceFramework 1 1 :: (int, string \<rightharpoonup> string, string, int, string \<times> int) engine"
  let ?e' = "MapReduceFramework 8 4 :: (int, string \<rightharpoonup> string, string, int, string \<times> int) engine"
  let ?i = "prepare_input_data
           [[''passenger_id'' \<mapsto> ''P1''], [''passenger_id'' \<mapsto> ''P2''],
            [''passenger_id'' \<mapsto> ''P1'']]"
  have p: "0 < num_mappers ?e" "0 < num_reducers ?e" "0 < num_mappers ?e'" "0 < num_reducers ?e'"
    by (simp_all add: MapReduceFramework_def)
  have a: "fst (run [] [] ?e ?i PassengerFlightCountMapper PassengerFlightCountReducer)
           = [(''P1'', 2), (''P2'', 1)]"
    by code_simp
  have b: "fst (run [0, 0, 1, 1, 1] [] ?e' ?i PassengerFlightCountMapper PassengerFlightCountReducer)
           = [(''P2'', 1), (''P1'', 2)]"
    by code_simp
  have c: "\<forall>(key, val) \<in> set ?i.
      \<not> stops (ending (PassengerFlightCountMapper key val :: (string \<times> int) gen))"
    by simp
  have h: "\<forall>k vs. \<not> stops (ending (PassengerFlightCountReducer k vs :: (string \<times> int) gen))"
    by simp
  from commutative_reducer_determinism [OF p c h count_reducer_commutative,
      of "[]" "[]" "[0, 0, 1, 1, 1]" "[]"] a b
  show ?thesis by simp
qed

theorem commutative_reducer_determinism_counterexample:
  "(\<lambda>key val. Gen [(val, 1)] (if key = 0 then RaisesEmpty else Finishes)) (0 :: int) ''P1''
     = (Gen [(''P1'', 1 :: int)] RaisesEmpty)
   \<and> 0 < num_mappers (MapReduceFramework 1 1 :: (int, string, string, int, string \<times> int) engine)
   \<and> 0 < num_reducers (MapReduceFramework 1 1 :: (int, string, string, int, string \<times> int) engine)
   \<and> 0 < num_mappers (MapReduceFramework 2 1 :: (int, string, string, int, string \<times> int) engine)
   \<and> 0 < num_reducers (MapReduceFramework 2 1 :: (int, string, string, int, string \<times> int) engine)
   \<and> fst (run [] [] (MapReduceFramework 1 1 :: (int, string, string, int, string \<times> int) engine)
        [(0, ''P1''), (1, ''P2'')]
        (\<lambda>key val. Gen [(val, 1)] (if key = 0 then RaisesEmpty else Finishes))
        PassengerFlightCountReducer) = [(''P1'', 1)]
   \<and> fst (run [] [] (MapReduceFramework 2 1 :: (int, string, string, int, string \<times> int) engine)
        [(0, ''P1''), (1, ''P2'')]
        (\<lambda>key val. Gen [(val, 1)] (if key = 0 then RaisesEmpty else Finishes))
        PassengerFlightCountReducer) = [(''P1'', 1), (''P2'', 1)]
   \<and> mset (fst (run [] [] (MapReduceFramework 1 1 :: (int, string, string, int, string \<times> int) engine)
        [(0, ''P1''), (1, ''P2'')]
        (\<lambda>key val. Gen [(val, 1)] (if key = 0 then RaisesEmpty else Finishes))
        PassengerFlightCountReducer))
     \<noteq> mset (fst (run [] [] (MapReduceFramework 2 1 :: (int, string, string, int, string \<times> int) engine)
        [(0, ''P1''), (1, ''P2'')]
        (\<lambda>key val. Gen [(val, 1)] (if key = 0 then RaisesEmpty else Finishes))
        PassengerFlightCountReducer))"
proof -
  let ?m = "\<lambda>(key :: int) (val :: string). Gen [(val, 1 :: int)] (if key = 0 then RaisesEmpty else Finishes)"
  have a: "fst (run [] [] (MapReduceFramework 1 1 :: (int, string, string, int, string \<times> int) engine)
        [(0, ''P1''), (1, ''P2'')] ?m PassengerFlightCountReducer) = [(''P1'', 1)]"
    by code_simp
  have b: "fst (run [] [] (MapReduceFramework 2 1 :: (int, string, string, int, string \<times> int) engine)
        [(0, ''P1''), (1, ''P2'')] ?m PassengerFlightCountReducer) = [(''P1'', 1), (''P2'', 1)]"
    by code_simp
  show ?thesis
    unfolding a b by (simp add: MapReduceFramework_def)
qed

section \<open>The concrete scenario\<close>

lemma count_reduced_groups:
  assumes "table d"
  shows "mset (reduced PassengerFlightCountReducer d)
         = image_mset (\<lambda>(k, M). (k, sum_mset M)) (groups (mset (flatten d)))"
proof -
  have "mset (reduced PassengerFlightCountReducer d)
        = image_mset (\<lambda>(k, M). (k, sum_mset M)) (mset (map (\<lambda>(k, vs). (k, mset vs)) d))"
    by (simp add: reduced_count multiset.map_comp comp_def case_prod_unfold sum_mset_sum_list)
  with table_groups [OF assms] show ?thesis by simp
qed

lemma groups_scenario:
  "groups {#(''P1'', 1 :: int), (''P1'', 1), (''P1'', 1), (''P2'', 1), (''P2'', 1)#}
   = {#(''P1'', {#1, 1, 1#}), (''P2'', {#1, 1#})#}"
proof -
  have "mset_set {''P1'', ''P2''} = {#''P1'', ''P2''#}"
    by simp
  then show ?thesis
    by (simp add: groups_def values_of_def)
qed

text \<open>
  Claim C2 (concrete scenario). When the mapper yields, over the whole input, the pair
  \<open>("P1", 1)\<close> three times and the pair \<open>("P2", 1)\<close> twice, and none of its invocations
  on the input stops its worker (as is the case when it maps every pair without
  failing), \<open>run\<close> with the summing reducer returns exactly the two results \<open>("P1", 3)\<close>
  and \<open>("P2", 2)\<close>, in some order, for every mapper-pool size and reducer-pool size of
  at least one and every interleaving.
\<close>

theorem concrete_scenario:
  assumes "0 < num_mappers e" and "0 < num_reducers e"
    and "\<forall>(key, val) \<in> set input_data. \<not> stops (ending (mapper key val))"
    and "mset (emitted mapper input_data)
         = {#(''P1'', 1), (''P1'', 1), (''P1'', 1), (''P2'', 1), (''P2'', 1)#}"
  shows "mset (fst (run sm sr e input_data mapper PassengerFlightCountReducer))
         = {#(''P1'', 3), (''P2'', 2)#}
    \<and> set (fst (run sm sr e input_data mapper PassengerFlightCountReducer))
         = {(''P1'', 3), (''P2'', 2)}"
proof -
  from run_result [of mapper input_data e PassengerFlightCountReducer sm sr]
  obtain d rs where t: "table d" and
    d0: "0 < num_mappers e \<and>
          (\<forall>(key, val) \<in> set input_data. \<not> stops (ending (mapper key val))) \<longrightarrow>
         mset (flatten d) = mset (emitted mapper input_data)" and
    rs0: "0 < num_reducers e \<and>
          (\<forall>(key, vals) \<in> set d. \<not> stops (ending (PassengerFlightCountReducer key vals))) \<longrightarrow>
          mset rs = mset (reduced PassengerFlightCountReducer d)" and
    r: "fst (run sm sr e input_data mapper PassengerFlightCountReducer) = rs"
    by blast
  from d0 assms(1,3) have d: "mset (flatten d) = mset (emitted mapper input_data)"
    by blast
  from rs0 assms(2) have rs: "mset rs = mset (reduced PassengerFlightCountReducer d)"
    by simp
  have m: "mset rs = {#(''P1'', 3), (''P2'', 2)#}"
    by (simp add: rs count_reduced_groups [OF t] d assms(4) groups_scenario)
  then have "set_mset (mset rs) = set_mset {#(''P1'', 3 :: int), (''P2'', 2)#}"
    by simp
  then have "set rs = {(''P1'', 3), (''P2'', 2)}"
    by simp
  with m show ?thesis by (simp add: r)
qed

theorem concrete_scenario_witness:
  "0 < num_mappers (MapReduceFramework 3 2 :: (int, string \<rightharpoonup> string, string, int, string \<times> int) engine) \<and> 0 < num_reducers (MapReduceFramework 3 2 :: (int, string \<rightharpoonup> string, string, int, string \<times> int) engine)
   \<and> mset (emitted PassengerFlightCountMapper (prepare_input_data
           [[''passenger_id'' \<mapsto> ''P1''], [''passenger_id'' \<mapsto> ''P2''],
            [''passenger_id'' \<mapsto> ''P1''], [''passenger_id'' \<mapsto> ''P2''],
            [''passenger_id'' \<mapsto> ''P1'']]))
     = {#(''P1'', 1), (''P1'', 1), (''P1'', 1), (''P2'', 1), (''P2'', 1)#}
   \<and> mset (fst (run [2, 1, 0, 2, 2, 1, 0, 0] [1, 1, 0] (MapReduceFramework 3 2 :: (int, string \<rightharpoonup> string, string, int, string \<times> int) engine) (prepare_input_data
           [[''passenger_id'' \<mapsto> ''P1''], [''passenger_id'' \<mapsto> ''P2''],
            [''passenger_id'' \<mapsto> ''P1''], [''passenger_id'' \<mapsto> ''P2''],
            [''passenger_id'' \<mapsto> ''P1'']])
        PassengerFlightCountMapper PassengerFlightCountReducer))
     = {#(''P1'', 3), (''P2'', 2)#}"
proof -
  have m: "0 < num_mappers (MapReduceFramework 3 2 :: (int, string \<rightharpoonup> string, string, int, string \<times> int) engine)" and r: "0 < num_reducers (MapReduceFramework 3 2 :: (int, string \<rightharpoonup> string, string, int, string \<times> int) engine)"
    by (simp_all add: MapReduceFramework_def)
  have i: "mset (emitted PassengerFlightCountMapper (prepare_input_data
           [[''passenger_id'' \<mapsto> ''P1''], [''passenger_id'' \<mapsto> ''P2''],
            [''passenger_id'' \<mapsto> ''P1''], [''passenger_id'' \<mapsto> ''P2''],
            [''passenger_id'' \<mapsto> ''P1'']]))
     = {#(''P1'', 1), (''P1'', 1), (''P1'', 1), (''P2'', 1), (''P2'', 1)#}"
    by (simp add: prepare_input_data_def upt_rec emitted_def PassengerFlightCountMapper_def)
  have c: "\<forall>(key, val) \<in> set (prepare_input_data
           [[''passenger_id'' \<mapsto> ''P1''], [''passenger_id'' \<mapsto> ''P2''],
            [''passenger_id'' \<mapsto> ''P1''], [''passenger_id'' \<mapsto> ''P2''],
            [''passenger_id'' \<mapsto> ''P1'']]).
      \<not> stops (ending (PassengerFlightCountMapper key val :: (string \<times> int) gen))"
    by simp
  from concrete_scenario [OF m r c i, of "[2, 1, 0, 2, 2, 1, 0, 0]" "[1, 1, 0]"] m r i
  show ?thesis by simp
qed

section \<open>Errors in the map phase\<close>

lemma map_phase_table:
  assumes "0 < num_mappers e"
    and "\<forall>(key, val) \<in> set (map_queue e). \<not> stops (ending (mapper key val))"
  shows "map_queue (map_phase sm mapper e) = []
    \<and> mset (flatten (shuffle_dict (map_phase sm mapper e)))
      = mset (flatten (shuffle_dict e)) + mset (emitted mapper (map_queue e))"
proof -
  from map_phase_result [of sm mapper e] obtain os where
    s: "shuffle_dict (map_phase sm mapper e) = foldl shuffle_add (shuffle_dict e) os" and
    i: "0 < num_mappers e \<and>
           (\<forall>(key, val) \<in> set (map_queue e). \<not> stops (ending (mapper key val))) \<longrightarrow>
           mset os = mset (emitted mapper (map_queue e)) \<and> map_queue (map_phase sm mapper e) = []"
    by blast
  from i assms have "mset os = mset (emitted mapper (map_queue e))"
    and "map_queue (map_phase sm mapper e) = []"
    by blast+
  with s show ?thesis by (simp add: mset_flatten_foldl)
qed

text \<open>
  Claim C4 (error containment in the map phase), as amended. Let the map phase run on
  at least one mapper thread, and let every error that an invocation
  \<open>mapper.map(key, value)\<close> raises on a task of the map queue be one that the clause
  \<open>except Exception\<close> of the worker handles: not \<open>queue.Empty\<close>, and not an error that
  escapes the handler. Then, for every interleaving, each worker goes on after such an
  error: the phase ends with every task taken from the map queue. The Shuffle Table has
  gained exactly the pairs that the invocations yielded, those of the failing ones
  included: the pairs an invocation yielded before it raised are not discarded.
\<close>

theorem map_error_containment:
  assumes "0 < num_mappers e"
    and "\<forall>(key, val) \<in> set (map_queue e). \<not> stops (ending (mapper key val))"
  shows "map_queue (map_phase sm mapper e) = []
    \<and> mset (flatten (shuffle_dict (map_phase sm mapper e)))
      = mset (flatten (shuffle_dict e)) + mset (emitted mapper (map_queue e))
    \<and> (\<forall>(key, val) \<in> set (map_queue e).
          set (yields (mapper key val)) \<subseteq> set (flatten (shuffle_dict (map_phase sm mapper e))))"
proof -
  note t = map_phase_table [OF assms, of sm]
  have "set (yields (mapper key val)) \<subseteq> set (flatten (shuffle_dict (map_phase sm mapper e)))"
    if "(key, val) \<in> set (map_queue e)" for key val
  proof -
    from that have "set (yields (mapper key val)) \<subseteq> set (emitted mapper (map_queue e))"
      by (auto simp: emitted_def)
    also have "\<dots> \<subseteq> set_mset (mset (flatten (shuffle_dict (map_phase sm mapper e))))"
      unfolding conjunct2 [OF t] by simp
    finally show ?thesis by simp
  qed
  with t show ?thesis
    by auto
qed

theorem map_error_containment_witness:
  "0 < num_mappers ((MapReduceFramework 1 1 :: (int, string, string, int, string \<times> int) engine)
       \<lparr>map_queue := [(0, ''P1''), (1, ''P2'')]\<rparr>)
   \<and> (\<lambda>key val. Gen [(val, 1 :: int)] (if key = (0 :: int) then Raises else Finishes)) 0 ''P1''
     = Gen [(''P1'', 1)] Raises
   \<and> map_queue (map_phase [] (\<lambda>key val. Gen [(val, 1)] (if key = 0 then Raises else Finishes))
        ((MapReduceFramework 1 1 :: (int, string, string, int, string \<times> int) engine)
           \<lparr>map_queue := [(0, ''P1''), (1, ''P2'')]\<rparr>)) = []
   \<and> shuffle_dict (map_phase [] (\<lambda>key val. Gen [(val, 1)] (if key = 0 then Raises else Finishes))
        ((MapReduceFramework 1 1 :: (int, string, string, int, string \<times> int) engine)
           \<lparr>map_queue := [(0, ''P1''), (1, ''P2'')]\<rparr>))
     = [(''P1'', [1]), (''P2'', [1])]"
proof -
  let ?e = "(MapReduceFramework 1 1 :: (int, string, string, int, string \<times> int) engine)
       \<lparr>map_queue := [(0, ''P1''), (1, ''P2'')]\<rparr>"
  let ?m = "\<lambda>(key :: int) (val :: string). Gen [(val, 1 :: int)] (if key = 0 then Raises else Finishes)"
  have m: "0 < num_mappers ?e"
    by (simp add: MapReduceFramework_def)
  have c: "\<forall>(key, val) \<in> set (map_queue ?e). \<not> stops (ending (?m key val))"
    by simp
  have d: "shuffle_dict (map_phase [] ?m ?e) = [(''P1'', [1]), (''P2'', [1])]"
    by code_simp
  from map_error_containment [OF m c, of "[]"] m d
  show ?thesis by simp
qed

theorem map_error_containment_counterexample:
  "(\<lambda>key val. Gen [(val, 1 :: int)] Raises) (0 :: int) ''P1'' = Gen [(''P1'', 1)] Raises
   \<and> shuffle_dict (map_phase [] (\<lambda>key val. Gen [(val, 1)] Raises)
        ((MapReduceFramework 1 1 :: (int, string, string, int, string \<times> int) engine)
           \<lparr>map_queue := [(0, ''P1'')]\<rparr>))
     = [(''P1'', [1])]
   \<and> (\<lambda>key val. Gen [] (if key = 0 then RaisesEmpty else Finishes)) (0 :: int) ''P1''
     = (Gen [] RaisesEmpty :: (string \<times> int) gen)
   \<and> map_queue (map_phase [] (\<lambda>key val. Gen [] (if key = 0 then RaisesEmpty else Finishes))
        ((MapReduceFramework 1 1 :: (int, string, string, int, string \<times> int) engine)
           \<lparr>map_queue := [(0, ''P1''), (1, ''P2'')]\<rparr>))
     = [(1, ''P2'')]
   \<and> (\<lambda>key val. Gen [] (if key = 0 then Escapes else Finishes)) (0 :: int) ''P1''
     = (Gen [] Escapes :: (string \<times> int) gen)
   \<and> map_queue (map_phase [] (\<lambda>key val. Gen [] (if key = 0 then Escapes else Finishes))
        ((MapReduceFramework 1 1 :: (int, string, string, int, string \<times> int) engine)
           \<lparr>map_queue := [(0, ''P1''), (1, ''P2'')]\<rparr>))
     = [(1, ''P2'')]"
proof -
  let ?e = "(MapReduceFramework 1 1 :: (int, string, string, int, string \<times> int) engine)
       \<lparr>map_queue := [(0, ''P1''), (1, ''P2'')]\<rparr>"
  have a: "shuffle_dict (map_phase [] (\<lambda>key val. Gen [(val, 1)] Raises)
        ((MapReduceFramework 1 1 :: (int, string, string, int, string \<times> int) engine)
           \<lparr>map_queue := [(0, ''P1'')]\<rparr>))
     = [(''P1'', [1])]"
    by code_simp
  have b: "map_queue (map_phase [] (\<lambda>key val. Gen [] (if key = 0 then RaisesEmpty else Finishes)) ?e)
     = [(1, ''P2'')]"
    by code_simp
  have c: "map_queue (map_phase [] (\<lambda>key val. Gen [] (if key = 0 then Escapes else Finishes)) ?e)
     = [(1, ''P2'')]"
    by code_simp
  show ?thesis
    unfolding a b c by simp
qed

section \<open>Zero-sized pools\<close>

lemma pool_step_queue_empty: "queue p = [] \<Longrightarrow> queue (pool_step call add i p) = []"
proof -
  assume q: "queue p = []"
  obtain w q' a where st: "worker_step call add (workers p ! i) (queue p) (acc p) = (w, q', a)"
    by (cases "worker_step call add (workers p ! i) (queue p) (acc p)")
  from worker_step_queue [OF st] q have "q' = []" by simp
  then show ?thesis by (simp add: pool_step_def st)
qed

lemma pool_run_queue_empty: "queue p = [] \<Longrightarrow> queue (pool_run call add sched p) = []"
proof (induction call add sched p rule: pool_run.induct)
  case (1 call add sched p)
  then show ?case
    by (cases "live (workers p) = []")
       (simp_all add: pool_run_done pool_run_step pool_step_queue_empty)
qed

lemma pool_idle:
  "pool_run call add sched \<lparr>workers = replicate n LoopHead, queue = [], acc = a\<rparr>
   = \<lparr>workers = replicate n Exited, queue = [], acc = a\<rparr>"
proof -
  let ?p = "\<lparr>workers = replicate n LoopHead, queue = [], acc = a\<rparr>"
  let ?r = "pool_run call add sched ?p"
  have "workers ?r = replicate n Exited"
    by (simp add: pool_run_workers)
  moreover have "queue ?r = []"
    by (rule pool_run_queue_empty) simp
  moreover from pool_result_all [of call add sched n "[]" a] have "acc ?r = a"
    by auto
  ultimately show ?thesis by (cases ?r) simp
qed

text \<open>
  Claim C5 (zero-sized pools), as amended. \<open>run\<close> starts \<open>range(n)\<close> threads and joins
  the threads it started; it never waits on a queue. With a mapper-pool size of zero (or
  below) no mapper thread exists, the barrier is passed at once, the map queue still
  holds the whole input, the Shuffle Table stays empty and \<open>run\<close> returns the empty
  result collection. With a reducer-pool size of zero the reduce queue keeps one task
  for each entry of the Shuffle Table and \<open>run\<close> again returns the empty result
  collection. In neither case does \<open>run\<close> block.
\<close>

theorem zero_pool_returns:
  "(num_mappers e \<le> 0 \<longrightarrow>
      run sm sr e input_data mapper reducer
      = ([], e\<lparr>map_queue := input_data, shuffle_dict := [], reduce_queue := [], results := []\<rparr>))
   \<and> (num_reducers e \<le> 0 \<longrightarrow>
      fst (run sm sr e input_data mapper reducer) = []
      \<and> reduce_queue (snd (run sm sr e input_data mapper reducer))
        = shuffle_dict (snd (run sm sr e input_data mapper reducer)))"
proof (intro conjI impI)
  assume "num_mappers e \<le> 0"
  then have n: "nat (num_mappers e) = 0" by simp
  show "run sm sr e input_data mapper reducer
      = ([], e\<lparr>map_queue := input_data, shuffle_dict := [], reduce_queue := [], results := []\<rparr>)"
    by (simp add: run_def map_phase_def shuffle_def reduce_phase_def Let_def n
        pool_no_workers pool_idle)
next
  assume "num_reducers e \<le> 0"
  then have n: "nat (num_reducers e) = 0" by simp
  show "fst (run sm sr e input_data mapper reducer) = []"
    by (simp add: run_def reduce_phase_def Let_def n pool_no_workers)
  show "reduce_queue (snd (run sm sr e input_data mapper reducer))
        = shuffle_dict (snd (run sm sr e input_data mapper reducer))"
    by (simp add: run_def reduce_phase_def Let_def n pool_no_workers)
qed

theorem zero_pool_returns_witness:
  "num_mappers (MapReduceFramework 0 2 :: (int, string, string, int, string \<times> int) engine) \<le> 0
   \<and> run [] [] (MapReduceFramework 0 2 :: (int, string, string, int, string \<times> int) engine)
        [(0, ''P1''), (1, ''P2'')] (\<lambda>key val. Gen [(val, 1)] Finishes) PassengerFlightCountReducer
     = ([], \<lparr>num_mappers = 0, num_reducers = 2, map_queue = [(0, ''P1''), (1, ''P2'')],
             shuffle_dict = [], reduce_queue = [], results = []\<rparr>)
   \<and> num_reducers (MapReduceFramework 2 0 :: (int, string, string, int, string \<times> int) engine) \<le> 0
   \<and> fst (run [] [] (MapReduceFramework 2 0 :: (int, string, string, int, string \<times> int) engine)
        [(0, ''P1''), (1, ''P2'')] (\<lambda>key val. Gen [(val, 1)] Finishes) PassengerFlightCountReducer)
     = []
   \<and> reduce_queue (snd (run [] []
        (MapReduceFramework 2 0 :: (int, string, string, int, string \<times> int) engine)
        [(0, ''P1''), (1, ''P2'')] (\<lambda>key val. Gen [(val, 1)] Finishes) PassengerFlightCountReducer))
     = [(''P1'', [1]), (''P2'', [1])]"
proof -
  let ?e = "MapReduceFramework 0 2 :: (int, string, string, int, string \<times> int) engine"
  let ?e' = "MapReduceFramework 2 0 :: (int, string, string, int, string \<times> int) engine"
  let ?m = "\<lambda>(key :: int) (val :: string). Gen [(val, 1 :: int)] Finishes"
  have z: "num_mappers ?e \<le> 0" "num_reducers ?e' \<le> 0"
    by (simp_all add: MapReduceFramework_def)
  have q: "reduce_queue (snd (run [] [] ?e' [(0, ''P1''), (1, ''P2'')] ?m
             PassengerFlightCountReducer)) = [(''P1'', [1]), (''P2'', [1])]"
    by code_simp
  from zero_pool_returns [of ?e "[]" "[]" "[(0, ''P1''), (1, ''P2'')]" ?m PassengerFlightCountReducer]
    zero_pool_returns [of ?e' "[]" "[]" "[(0, ''P1''), (1, ''P2'')]" ?m PassengerFlightCountReducer]
    z q
  show ?thesis by (simp add: MapReduceFramework_def)
qed

theorem zero_pool_blocks_counterexample:
  "[(0 :: int, ''P1'')] \<noteq> []
   \<and> run [] [] (MapReduceFramework 0 2 :: (int, string, string, int, string \<times> int) engine)
        [(0, ''P1'')] (\<lambda>key val. Gen [(val, 1)] Finishes) PassengerFlightCountReducer
     = ([], \<lparr>num_mappers = 0, num_reducers = 2, map_queue = [(0, ''P1'')],
             shuffle_dict = [], reduce_queue = [], results = []\<rparr>)"
  by code_simp

section \<open>Totality of run\<close>

lemma table_flatten_Nil: "table d \<Longrightarrow> flatten d = [] \<Longrightarrow> d = []"
  by (cases d) (auto simp: table_def)

lemma reduced_Nil [simp]: "reduced reducer [] = []"
  by (simp add: reduced_def)

lemma emitted_Nil [simp]: "emitted mapper [] = []"
  by (simp add: emitted_def)

lemma run_no_pairs:
  assumes "emitted mapper input_data = []"
  shows "fst (run sm sr e input_data mapper reducer) = []"
proof -
  from run_result [of mapper input_data e reducer sm sr]
  obtain d rs where t: "table d" and
    d: "mset (flatten d) \<subseteq># mset (emitted mapper input_data)" and
    rs: "mset rs \<subseteq># mset (reduced reducer d)" and
    r: "fst (run sm sr e input_data mapper reducer) = rs"
    by blast
  from d assms have "flatten d = []" by simp
  with t have "d = []" by (rule table_flatten_Nil)
  with rs have "rs = []" by simp
  with r show ?thesis by simp
qed

lemma run_no_results:
  assumes "\<forall>k vs. yields (reducer k vs) = []"
  shows "fst (run sm sr e input_data mapper reducer) = []"
proof -
  from run_result [of mapper input_data e reducer sm sr]
  obtain d rs where
    rs: "mset rs \<subseteq># mset (reduced reducer d)" and
    r: "fst (run sm sr e input_data mapper reducer) = rs"
    by blast
  from assms have "reduced reducer d = []"
    by (induction d) (auto simp: reduced_def)
  with rs have "rs = []" by simp
  with r show ?thesis by simp
qed

text \<open>
  Claim C6 (\<open>run\<close> is total and does not raise), as amended. For every input list, every
  mapper and reducer (failing or not) and every interleaving, each pool ends with all
  of its threads returned, and \<open>run\<close> returns the contents of the Result Collector; the
  termination of the pools is the termination proof of \<open>pool_run\<close>. The result is empty
  when the input list is empty, when no mapper invocation yields a pair, and when no
  reducer invocation yields a result. Failure alone does not empty the result: what an
  invocation yielded before it raised is kept.
\<close>

theorem run_total:
  "live (workers (pool_run call add sched p)) = []
   \<and> results (snd (run sm sr e input_data mapper reducer))
     = fst (run sm sr e input_data mapper reducer)
   \<and> (input_data = [] \<longrightarrow> fst (run sm sr e input_data mapper reducer) = [])
   \<and> ((\<forall>(key, val) \<in> set input_data. yields (mapper key val) = []) \<longrightarrow>
        fst (run sm sr e input_data mapper reducer) = [])
   \<and> ((\<forall>key vals. yields (reducer key vals) = []) \<longrightarrow>
        fst (run sm sr e input_data mapper reducer) = [])"
proof (intro conjI impI)
  show "live (workers (pool_run call add sched p)) = []"
    by (rule pool_run_live)
  show "results (snd (run sm sr e input_data mapper reducer))
     = fst (run sm sr e input_data mapper reducer)"
    by (simp add: run_def Let_def)
next
  assume "input_data = []"
  then show "fst (run sm sr e input_data mapper reducer) = []"
    by (simp add: run_no_pairs)
next
  assume "\<forall>(key, val) \<in> set input_data. yields (mapper key val) = []"
  then have "emitted mapper input_data = []"
    by (auto simp: emitted_def)
  then show "fst (run sm sr e input_data mapper reducer) = []"
    by (rule run_no_pairs)
next
  assume "\<forall>key vals. yields (reducer key vals) = []"
  then show "fst (run sm sr e input_data mapper reducer) = []"
    by (rule run_no_results)
qed

theorem run_total_witness:
  "fst (run [] [] (MapReduceFramework 4 2 :: (int, string \<rightharpoonup> string, string, int, string \<times> int) engine) [] PassengerFlightCountMapper PassengerFlightCountReducer) = []
   \<and> ending (PassengerFlightCountMapper (0 :: int) (Map.empty :: string \<rightharpoonup> string)) = Raises
   \<and> ending (PassengerFlightCountMapper (1 :: int) [''flight_id'' \<mapsto> ''F1'']) = Raises
   \<and> fst (run [] [] (MapReduceFramework 4 2 :: (int, string \<rightharpoonup> string, string, int, string \<times> int) engine) [(0, Map.empty), (1, [''flight_id'' \<mapsto> ''F1''])] PassengerFlightCountMapper PassengerFlightCountReducer) = []
   \<and> fst (run [] [] (MapReduceFramework 4 2 :: (int, string \<rightharpoonup> string, string, int, string \<times> int) engine) [(0, [''passenger_id'' \<mapsto> ''P1''])] PassengerFlightCountMapper (\<lambda>key vals. Gen [] Raises)) = []"
proof -
  have a: "\<forall>(key, val) \<in> set [(0, Map.empty), (1, [''flight_id'' \<mapsto> ''F1''])].
      yields (PassengerFlightCountMapper key val :: (string \<times> int) gen) = []"
    by (simp add: PassengerFlightCountMapper_def)
  have b: "\<forall>(key :: string) (vals :: int list). yields (Gen [] Raises :: (string \<times> int) gen) = []"
    by simp
  have c: "ending (PassengerFlightCountMapper (0 :: int) (Map.empty :: string \<rightharpoonup> string)) = Raises"
    "ending (PassengerFlightCountMapper (1 :: int) [''flight_id'' \<mapsto> ''F1'']) = Raises"
    by (simp_all add: PassengerFlightCountMapper_def)
  have r1: "fst (run [] [] (MapReduceFramework 4 2 :: (int, string \<rightharpoonup> string, string, int, string \<times> int) engine) [] PassengerFlightCountMapper PassengerFlightCountReducer) = []"
    using run_total [of "\<lambda>t. Gen [] Finishes" "\<lambda>a x. a" "[]" "\<lparr>workers = [], queue = [], acc = ()\<rparr>"
      "[]" "[]" "(MapReduceFramework 4 2 :: (int, string \<rightharpoonup> string, string, int, string \<times> int) engine)"
      "[]" PassengerFlightCountMapper PassengerFlightCountReducer]
    by blast
  have r2: "fst (run [] [] (MapReduceFramework 4 2 :: (int, string \<rightharpoonup> string, string, int, string \<times> int) engine) [(0, Map.empty), (1, [''flight_id'' \<mapsto> ''F1''])] PassengerFlightCountMapper PassengerFlightCountReducer) = []"
    using run_total [of "\<lambda>t. Gen [] Finishes" "\<lambda>a x. a" "[]" "\<lparr>workers = [], queue = [], acc = ()\<rparr>"
      "[]" "[]" "(MapReduceFramework 4 2 :: (int, string \<rightharpoonup> string, string, int, string \<times> int) engine)"
      "[(0, Map.empty), (1, [''flight_id'' \<mapsto> ''F1''])]" PassengerFlightCountMapper PassengerFlightCountReducer] a
    by blast
  have r3: "fst (run [] [] (MapReduceFramework 4 2 :: (int, string \<rightharpoonup> string, string, int, string \<times> int) engine) [(0, [''passenger_id'' \<mapsto> ''P1''])] PassengerFlightCountMapper (\<lambda>key vals. Gen [] Raises)) = []"
    using run_total [of "\<lambda>t. Gen [] Finishes" "\<lambda>a x. a" "[]" "\<lparr>workers = [], queue = [], acc = ()\<rparr>"
      "[]" "[]" "(MapReduceFramework 4 2 :: (int, string \<rightharpoonup> string, string, int, string \<times> int) engine)"
      "[(0, [''passenger_id'' \<mapsto> ''P1''])]" PassengerFlightCountMapper "\<lambda>key vals. Gen [] Raises"] b
    by blast
  from r1 r2 r3 c show ?thesis by simp
qed

theorem run_total_counterexample:
  "ending ((\<lambda>key val. Gen [(val, 1 :: int)] Raises) (0 :: int) ''P1'') = Raises
   \<and> ending ((\<lambda>key vals. Gen [(key, sum_list vals)] Raises) ''P1'' [1 :: int]) = Raises
   \<and> fst (run [] [] (MapReduceFramework 4 2 :: (int, string, string, int, string \<times> int) engine)
        [(0, ''P1'')] (\<lambda>key val. Gen [(val, 1)] Raises)
        (\<lambda>key vals. Gen [(key, sum_list vals)] Raises))
     = [(''P1'', 1)]"
  by code_simp

section \<open>State isolation across runs\<close>

lemma run_reset:
  "run sm sr (e\<lparr>map_queue := q, shuffle_dict := d, reduce_queue := rq, results := rs\<rparr>)
     input_data mapper reducer
   = run sm sr e input_data mapper reducer"
  by (simp add: run_def Let_def)

lemma run_sizes:
  "num_mappers (snd (run sm sr e input_data mapper reducer)) = num_mappers e"
  "num_reducers (snd (run sm sr e input_data mapper reducer)) = num_reducers e"
  by (simp_all add: run_def Let_def)

lemma run_fresh:
  fixes e :: "('k1, 'v1, 'k, 'v, 'r) engine"
  shows "run sm sr e input_data mapper reducer
   = run sm sr (MapReduceFramework (num_mappers e) (num_reducers e)) input_data mapper reducer"
  by (cases e) (simp add: run_def Let_def MapReduceFramework_def)

lemma in_reduced:
  "r \<in> set (reduced reducer d) \<Longrightarrow> \<exists>(k, vs) \<in> set d. r \<in> set (yields (reducer k vs))"
  by (auto simp: reduced_def)

lemma run_result_origin:
  assumes "r \<in> set (fst (run sm sr e input_data mapper reducer))"
  shows "\<exists>k vs. k \<in> fst ` set (emitted mapper input_data) \<and> r \<in> set (yields (reducer k vs))"
proof -
  from run_result [of mapper input_data e reducer sm sr]
  obtain d rs where t: "table d" and
    d: "mset (flatten d) \<subseteq># mset (emitted mapper input_data)" and
    rs: "mset rs \<subseteq># mset (reduced reducer d)" and
    res: "fst (run sm sr e input_data mapper reducer) = rs"
    by blast
  from assms res rs have "r \<in> set (reduced reducer d)"
    by (metis mset_subset_eqD set_mset_mset)
  from in_reduced [OF this] obtain k vs where e: "(k, vs) \<in> set d"
    and y: "r \<in> set (yields (reducer k vs))"
    by auto
  from e have "k \<in> fst ` set d" by force
  with keys_flatten [OF t] have "k \<in> fst ` set (flatten d)" by simp
  with d have "k \<in> fst ` set (emitted mapper input_data)"
    by (metis (no_types, lifting) image_iff mset_subset_eqD set_mset_mset)
  with y show ?thesis by blast
qed

lemma run_result_keys:
  assumes "\<forall>k vs. \<forall>r \<in> set (yields (reducer k vs)). fst r = k"
  shows "fst ` set (fst (run sm sr e input_data mapper reducer))
         \<subseteq> fst ` set (emitted mapper input_data)"
proof
  fix k
  assume "k \<in> fst ` set (fst (run sm sr e input_data mapper reducer))"
  then obtain r where r: "r \<in> set (fst (run sm sr e input_data mapper reducer))" and k: "k = fst r"
    by auto
  from run_result_origin [OF r] obtain k' vs where
    "k' \<in> fst ` set (emitted mapper input_data)" "r \<in> set (yields (reducer k' vs))"
    by blast
  with assms k show "k \<in> fst ` set (emitted mapper input_data)"
    by blast
qed

text \<open>
  Claim C7 (state isolation across runs), as amended. \<open>run\<close> begins by replacing the
  Work Queues, the Shuffle Table and the Result Collector, so its outcome does not
  depend on what they held before. Hence a second run on the engine a first run has
  left behind returns what it returns on a freshly constructed engine with the same pool
  sizes, for every pair of interleavings, and every result of the second run was yielded
  by the second run's reducer on a key of the second run's mapper output. When that
  reducer labels its results with the key it is given, a key that occurs in the first
  run's mapper output and not in the second run's does not occur in the second run's
  results. A reducer is free to label its results otherwise.
\<close>

theorem state_isolation:
  fixes e :: "('k1, 'v1, 'k, 'v, 'k \<times> 'x) engine"
  shows "run sm sr (e\<lparr>map_queue := q, shuffle_dict := d, reduce_queue := rq, results := rs\<rparr>)
       input_data mapper reducer
     = run sm sr e input_data mapper reducer
   \<and> fst (run sm2 sr2 (snd (run sm1 sr1 e input1 mapper1 reducer1)) input2 mapper2 reducer2)
     = fst (run sm2 sr2 (MapReduceFramework (num_mappers e) (num_reducers e))
              input2 mapper2 reducer2)
   \<and> (\<forall>r \<in> set (fst (run sm2 sr2 (snd (run sm1 sr1 e input1 mapper1 reducer1))
                          input2 mapper2 reducer2)).
        \<exists>k vs. k \<in> fst ` set (emitted mapper2 input2) \<and> r \<in> set (yields (reducer2 k vs)))
   \<and> ((\<forall>k vs. \<forall>r \<in> set (yields (reducer2 k vs)). fst r = k) \<longrightarrow>
        (\<forall>k. k \<in> fst ` set (emitted mapper1 input1) \<and> k \<notin> fst ` set (emitted mapper2 input2) \<longrightarrow>
             k \<notin> fst ` set (fst (run sm2 sr2 (snd (run sm1 sr1 e input1 mapper1 reducer1))
                                  input2 mapper2 reducer2))))"
proof (intro conjI impI allI ballI)
  show "run sm sr (e\<lparr>map_queue := q, shuffle_dict := d, reduce_queue := rq, results := rs\<rparr>)
       input_data mapper reducer
     = run sm sr e input_data mapper reducer"
    by (rule run_reset)
  show "fst (run sm2 sr2 (snd (run sm1 sr1 e input1 mapper1 reducer1)) input2 mapper2 reducer2)
     = fst (run sm2 sr2 (MapReduceFramework (num_mappers e) (num_reducers e))
              input2 mapper2 reducer2)"
    by (subst run_fresh) (simp add: run_sizes)
next
  fix r
  assume "r \<in> set (fst (run sm2 sr2 (snd (run sm1 sr1 e input1 mapper1 reducer1))
                          input2 mapper2 reducer2))"
  then show "\<exists>k vs. k \<in> fst ` set (emitted mapper2 input2) \<and> r \<in> set (yields (reducer2 k vs))"
    by (rule run_result_origin)
next
  fix k
  assume c: "\<forall>k vs. \<forall>r \<in> set (yields (reducer2 k vs)). fst r = k"
    and k: "k \<in> fst ` set (emitted mapper1 input1) \<and> k \<notin> fst ` set (emitted mapper2 input2)"
  from run_result_keys [OF c, of sm2 sr2 "snd (run sm1 sr1 e input1 mapper1 reducer1)" input2 mapper2] k
  show "k \<notin> fst ` set (fst (run sm2 sr2 (snd (run sm1 sr1 e input1 mapper1 reducer1))
                                  input2 mapper2 reducer2))"
    by blast
qed

theorem state_isolation_witness:
  "fst (run [3, 1] [1] (MapReduceFramework 4 2 :: (int, string \<rightharpoonup> string, string, int, string \<times> int) engine)
          [(0, [''passenger_id'' \<mapsto> ''P1'']), (1, [''passenger_id'' \<mapsto> ''P1''])]
          PassengerFlightCountMapper PassengerFlightCountReducer) = [(''P1'', 2)]
   \<and> fst (run [0, 2] []
        (snd (run [3, 1] [1] (MapReduceFramework 4 2 :: (int, string \<rightharpoonup> string, string, int, string \<times> int) engine)
          [(0, [''passenger_id'' \<mapsto> ''P1'']), (1, [''passenger_id'' \<mapsto> ''P1''])]
          PassengerFlightCountMapper PassengerFlightCountReducer))
        [(0, [''passenger_id'' \<mapsto> ''P2''])] PassengerFlightCountMapper PassengerFlightCountReducer) = [(''P2'', 1)]
   \<and> ''P1'' \<notin> fst ` set (fst (run [0, 2] []
        (snd (run [3, 1] [1] (MapReduceFramework 4 2 :: (int, string \<rightharpoonup> string, string, int, string \<times> int) engine)
          [(0, [''passenger_id'' \<mapsto> ''P1'']), (1, [''passenger_id'' \<mapsto> ''P1''])]
          PassengerFlightCountMapper PassengerFlightCountReducer))
        [(0, [''passenger_id'' \<mapsto> ''P2''])] PassengerFlightCountMapper PassengerFlightCountReducer))"
proof -
  have c: "\<forall>k vs. \<forall>r \<in> set (yields (PassengerFlightCountReducer k vs :: (string \<times> int) gen)).
             fst r = k"
    by (simp add: PassengerFlightCountReducer_def)
  have k1: "''P1'' \<in> fst ` set (emitted PassengerFlightCountMapper [(0, [''passenger_id'' \<mapsto> ''P1'']), (1, [''passenger_id'' \<mapsto> ''P1''])] :: (string \<times> int) list)"
    by (simp add: emitted_def PassengerFlightCountMapper_def)
  have k2: "''P1'' \<notin> fst ` set (emitted PassengerFlightCountMapper [(0, [''passenger_id'' \<mapsto> ''P2''])] :: (string \<times> int) list)"
    by (simp add: emitted_def PassengerFlightCountMapper_def)
  have a: "fst (run [3, 1] [1] (MapReduceFramework 4 2 :: (int, string \<rightharpoonup> string, string, int, string \<times> int) engine)
          [(0, [''passenger_id'' \<mapsto> ''P1'']), (1, [''passenger_id'' \<mapsto> ''P1''])]
          PassengerFlightCountMapper PassengerFlightCountReducer) = [(''P1'', 2)]"
    by code_simp
  have b: "fst (run [0, 2] []
        (snd (run [3, 1] [1] (MapReduceFramework 4 2 :: (int, string \<rightharpoonup> string, string, int, string \<times> int) engine)
          [(0, [''passenger_id'' \<mapsto> ''P1'']), (1, [''passenger_id'' \<mapsto> ''P1''])]
          PassengerFlightCountMapper PassengerFlightCountReducer))
        [(0, [''passenger_id'' \<mapsto> ''P2''])] PassengerFlightCountMapper PassengerFlightCountReducer) = [(''P2'', 1)]"
    by code_simp
  have "''P1'' \<notin> fst ` set (fst (run [0, 2] []
        (snd (run [3, 1] [1] (MapReduceFramework 4 2 :: (int, string \<rightharpoonup> string, string, int, string \<times> int) engine)
          [(0, [''passenger_id'' \<mapsto> ''P1'']), (1, [''passenger_id'' \<mapsto> ''P1''])]
          PassengerFlightCountMapper PassengerFlightCountReducer))
        [(0, [''passenger_id'' \<mapsto> ''P2''])] PassengerFlightCountMapper PassengerFlightCountReducer))"
    using state_isolation [where e = "(MapReduceFramework 4 2 :: (int, string \<rightharpoonup> string, string, int, string \<times> int) engine)"
        and ?sm1.0 = "[3, 1]" and ?sr1.0 = "[1]" and ?input1.0 = "[(0, [''passenger_id'' \<mapsto> ''P1'']), (1, [''passenger_id'' \<mapsto> ''P1''])]"
        and ?mapper1.0 = PassengerFlightCountMapper and ?reducer1.0 = PassengerFlightCountReducer
        and ?sm2.0 = "[0, 2]" and ?sr2.0 = "[]" and ?input2.0 = "[(0, [''passenger_id'' \<mapsto> ''P2''])]"
        and ?mapper2.0 = PassengerFlightCountMapper and ?reducer2.0 = PassengerFlightCountReducer]
      c k1 k2
    by blast
  with a b show ?thesis by simp
qed

theorem state_isolation_counterexample:
  "fst ` set (emitted (\<lambda>key val. Gen [(val, 1 :: int)] Finishes) [(0 :: int, ''TOTAL'')])
     = {''TOTAL''}
   \<and> fst ` set (emitted (\<lambda>key val. Gen [(val, 1 :: int)] Finishes) [(0 :: int, ''P2'')])
     = {''P2''}
   \<and> fst (run [] []
        (snd (run [] [] (MapReduceFramework 4 2 :: (int, string, string, int, string \<times> int) engine)
                [(0, ''TOTAL'')] (\<lambda>key val. Gen [(val, 1)] Finishes)
                (\<lambda>key vals. Gen [(''TOTAL'', sum_list vals)] Finishes)))
        [(0, ''P2'')] (\<lambda>key val. Gen [(val, 1)] Finishes)
        (\<lambda>key vals. Gen [(''TOTAL'', sum_list vals)] Finishes))
     = [(''TOTAL'', 1)]"
proof -
  have a: "fst ` set (emitted (\<lambda>key val. Gen [(val, 1 :: int)] Finishes) [(0 :: int, ''TOTAL'')])
     = {''TOTAL''}"
    by (simp add: emitted_def)
  have b: "fst ` set (emitted (\<lambda>key val. Gen [(val, 1 :: int)] Finishes) [(0 :: int, ''P2'')])
     = {''P2''}"
    by (simp add: emitted_def)
  have c: "fst (run [] []
        (snd (run [] [] (MapReduceFramework 4 2 :: (int, string, string, int, string \<times> int) engine)
                [(0, ''TOTAL'')] (\<lambda>key val. Gen [(val, 1)] Finishes)
                (\<lambda>key vals. Gen [(''TOTAL'', sum_list vals)] Finishes)))
        [(0, ''P2'')] (\<lambda>key val. Gen [(val, 1)] Finishes)
        (\<lambda>key vals. Gen [(''TOTAL'', sum_list vals)] Finishes))
     = [(''TOTAL'', 1)]"
    by code_simp
  from a b c show ?thesis by simp
qed

end
